theory Spec2Isabelle
  imports Complex_Main "HOL-Library.Signed_Division" "HOL-Library.Word"
    "HOL-Library.List_Lexorder" "HOL-Library.AList"
begin

section \<open>Strings\<close>

text \<open>
  A JavaScript string is a sequence of 16-bit code units. \<open>js\<close> writes the string of an
  ASCII literal: \<open>js ''ff''\<close> is the string \<^verbatim>\<open>"ff"\<close>.
\<close>

type_synonym js_string = "16 word list"

definition code_unit :: "char \<Rightarrow> 16 word" where
  "code_unit c = of_nat (of_char c)"

definition js :: "string \<Rightarrow> js_string" where
  "js s = map code_unit s"

section \<open>Errors\<close>

text \<open>
  Every \<^verbatim>\<open>throw\<close> of \<^verbatim>\<open>solve.js\<close>, and every exception the JavaScript
  runtime raises on the paths modelled here, is a value of this type. A result is
  \<open>error + 'a\<close>, with \<open>Inl\<close> the exception.
\<close>

datatype error =
    InvalidDigit js_string        \<comment> \<open>\<^verbatim>\<open>Invalid digit: ch\<close>\<close>
  | DigitGeBase js_string int     \<comment> \<open>\<^verbatim>\<open>Digit 'ch' >= base\<close>\<close>
  | ZeroDenominator               \<comment> \<open>\<^verbatim>\<open>Zero denominator in fraction\<close>\<close>
  | NonInteger int int            \<comment> \<open>\<^verbatim>\<open>Interpolation didn't yield an integer at 0\<close>\<close>
  | RangeError                    \<comment> \<open>BigInt division by zero, \<^verbatim>\<open>BigInt(NaN)\<close>\<close>
  | TypeError                     \<comment> \<open>property read on \<^verbatim>\<open>undefined\<close>\<close>
  | InvalidParams int int         \<comment> \<open>\<^verbatim>\<open>Invalid n/k values\<close>\<close>
  | NoValidSubset                 \<comment> \<open>\<^verbatim>\<open>Could not compute any c from subsets.\<close>\<close>

definition bindE :: "error + 'a \<Rightarrow> ('a \<Rightarrow> error + 'b) \<Rightarrow> error + 'b" where
  "bindE r f = (case r of Inl e \<Rightarrow> Inl e | Inr v \<Rightarrow> f v)"

definition failed :: "error + 'a \<Rightarrow> bool" where
  "failed r = (case r of Inl e \<Rightarrow> True | Inr v \<Rightarrow> False)"

section \<open>Digit decoder\<close>

text \<open>
  \<^verbatim>\<open>for (const ch of str)\<close> runs over the code points of the string: the iterator
  yields a high surrogate followed by a low surrogate as one string of two code units, and
  every other code unit as a string of its own.
\<close>

fun code_points :: "js_string \<Rightarrow> js_string list" where
  "code_points [] = []"
| "code_points [u] = [[u]]"
| "code_points (u # v # rest) =
     (if 0xD800 \<le> u \<and> u \<le> 0xDBFF \<and> 0xDC00 \<le> v \<and> v \<le> 0xDFFF
      then [u, v] # code_points rest
      else [u] # code_points (v # rest))"

text \<open>
  \<^verbatim>\<open>ch.toLowerCase()\<close> on a string \<open>ch\<close> of one code point. It follows the Unicode case
  tables, which are not part of the program. The model holds every row of them whose result
  starts with a code unit below \<^verbatim>\<open>0x80\<close>: \<^verbatim>\<open>A\<close>..\<^verbatim>\<open>Z\<close> become \<^verbatim>\<open>a\<close>..\<^verbatim>\<open>z\<close>,
  \<^verbatim>\<open>U+212A\<close> (the Kelvin sign) becomes \<^verbatim>\<open>k\<close>, and \<^verbatim>\<open>U+0130\<close> (capital I with dot
  above) becomes \<^verbatim>\<open>i\<close> followed by \<^verbatim>\<open>U+0307\<close>. Every other code point the tables change
  is \<^verbatim>\<open>0x80\<close> or more and becomes a string that starts with a code unit of \<^verbatim>\<open>0x80\<close> or
  more; \<open>charToVal\<close> rejects such a string as it rejects the original, with the same
  message, so these are left as they are.
\<close>

definition toLowerCase :: "js_string \<Rightarrow> js_string" where
  "toLowerCase ch =
     (case ch of
        [u] \<Rightarrow>
          if 0x41 \<le> u \<and> u \<le> 0x5A then [u + 0x20]
          else if u = 0x212A then js ''k''
          else if u = 0x130 then [0x69, 0x307]
          else ch
      | _ \<Rightarrow> ch)"

text \<open>\<^verbatim>\<open>c.charCodeAt(0)\<close> as it is used in \<open>charToVal\<close>: on the empty string it is
  \<^verbatim>\<open>NaN\<close>, which \<^verbatim>\<open>BigInt\<close> refuses with a RangeError.\<close>

definition charCodeAt0 :: "js_string \<Rightarrow> error + int" where
  "charCodeAt0 s = (case s of [] \<Rightarrow> Inl RangeError | u # rest \<Rightarrow> Inr (uint u))"

text \<open>The comparisons of \<open>charToVal\<close> are comparisons of strings: code unit by code unit,
  a proper prefix being smaller. \<^verbatim>\<open>'0'.charCodeAt(0)\<close> is 48 and \<^verbatim>\<open>'a'.charCodeAt(0)\<close>
  is 97.\<close>

definition charToVal :: "js_string \<Rightarrow> error + int" where
  "charToVal ch =
     (let c = toLowerCase ch in
      if js ''0'' \<le> c \<and> c \<le> js ''9'' then bindE (charCodeAt0 c) (\<lambda>v. Inr (v - 48))
      else if js ''a'' \<le> c \<and> c \<le> js ''z'' then bindE (charCodeAt0 c) (\<lambda>v. Inr (10 + (v - 97)))
      else Inl (InvalidDigit ch))"

text \<open>The \<^verbatim>\<open>for (const ch of str)\<close> loop of \<^verbatim>\<open>decodeBaseToBigInt\<close> over the code points
  still to come, with \<open>B\<close> and the accumulator as arguments.\<close>

fun decode_loop :: "int \<Rightarrow> int \<Rightarrow> js_string list \<Rightarrow> error + int" where
  "decode_loop B acc [] = Inr acc"
| "decode_loop B acc (ch # rest) =
     (case charToVal ch of
        Inl e \<Rightarrow> Inl e
      | Inr v \<Rightarrow> if v \<ge> B then Inl (DigitGeBase ch B) else decode_loop B (acc * B + v) rest)"

definition decodeBaseToBigInt :: "js_string \<Rightarrow> int \<Rightarrow> error + int" where
  "decodeBaseToBigInt str base = decode_loop base 0 (code_points str)"

section \<open>Exact fraction arithmetic\<close>

text \<open>BigInt \<^verbatim>\<open>/\<close> and \<^verbatim>\<open>%\<close> truncate towards zero and raise a RangeError on a zero
  divisor.\<close>

definition bigDiv :: "int \<Rightarrow> int \<Rightarrow> error + int" where
  "bigDiv a b = (if b = 0 then Inl RangeError else Inr (a sdiv b))"

definition bigRem :: "int \<Rightarrow> int \<Rightarrow> error + int" where
  "bigRem a b = (if b = 0 then Inl RangeError else Inr (a smod b))"

definition absBig :: "int \<Rightarrow> int" where
  "absBig n = (if n < 0 then - n else n)"

lemma smod_less_divisor: "b \<noteq> 0 \<Longrightarrow> \<bar>(a::int) smod b\<bar> < \<bar>b\<bar>"
  by (simp add: signed_modulo_int_def abs_mult abs_sgn_eq)

text \<open>The \<^verbatim>\<open>while (b !== 0n)\<close> loop of \<^verbatim>\<open>gcdBig\<close>; the divisor is non-zero inside
  the loop, so \<^verbatim>\<open>a % b\<close> cannot raise.\<close>

function gcd_loop :: "int \<Rightarrow> int \<Rightarrow> int" where
  "gcd_loop a b = (if b \<noteq> 0 then gcd_loop b (a smod b) else a)"
  by pat_completeness auto
termination
  by (relation "measure (\<lambda>(a, b). nat \<bar>b\<bar>)") (auto simp: smod_less_divisor)

declare gcd_loop.simps [simp del]

definition gcdBig :: "int \<Rightarrow> int \<Rightarrow> int" where
  "gcdBig a b = gcd_loop (absBig a) (absBig b)"

type_synonym frac = "int \<times> int"

definition normalizeFrac :: "int \<Rightarrow> int \<Rightarrow> error + frac" where
  "normalizeFrac num den =
     (if den = 0 then Inl ZeroDenominator
      else if num = 0 then Inr (0, 1)
      else
        let num' = (if den < 0 then - num else num);
            den' = (if den < 0 then - den else den);
            g = gcdBig (absBig num') den'
        in bindE (bigDiv num' g) (\<lambda>qn. bindE (bigDiv den' g) (\<lambda>qd. Inr (qn, qd))))"

definition addFrac :: "frac \<Rightarrow> frac \<Rightarrow> error + frac" where
  "addFrac a b = (case (a, b) of ((an, ad), (bn, bd)) \<Rightarrow> normalizeFrac (an * bd + bn * ad) (ad * bd))"

definition mulFrac :: "frac \<Rightarrow> frac \<Rightarrow> error + frac" where
  "mulFrac a b = (case (a, b) of ((an, ad), (bn, bd)) \<Rightarrow> normalizeFrac (an * bn) (ad * bd))"

section \<open>Interpolator\<close>

record point =
  x :: int
  y :: int
  label :: string

text \<open>
  The array handed to \<^verbatim>\<open>interpolateAtZero\<close> is built by \<^verbatim>\<open>combo.map(i => points[i])\<close>,
  so an element can be \<^verbatim>\<open>undefined\<close> (\<open>None\<close>); reading \<^verbatim>\<open>.x\<close> or \<^verbatim>\<open>.y\<close> of it
  raises a TypeError.
\<close>

definition prop_x :: "point option \<Rightarrow> error + int" where
  "prop_x p = (case p of None \<Rightarrow> Inl TypeError | Some q \<Rightarrow> Inr (x q))"

definition prop_y :: "point option \<Rightarrow> error + int" where
  "prop_y p = (case p of None \<Rightarrow> Inl TypeError | Some q \<Rightarrow> Inr (y q))"

text \<open>The inner \<^verbatim>\<open>for (let j = 0; j < k; j++)\<close> loop, from \<open>j\<close> on, with \<open>li\<close> as
  accumulator; \<open>k\<close> is \<^verbatim>\<open>points.length\<close>.\<close>

function inner_loop :: "point option list \<Rightarrow> nat \<Rightarrow> int \<Rightarrow> nat \<Rightarrow> frac \<Rightarrow> error + frac" where
  "inner_loop points i xi j li =
     (if j < length points then
        (if i = j then inner_loop points i xi (j + 1) li
         else
           bindE (prop_x (points ! j)) (\<lambda>xj.
             let num = - xj; den = xi - xj in
             bindE (normalizeFrac num den) (\<lambda>f.
               bindE (mulFrac li f) (\<lambda>li'. inner_loop points i xi (j + 1) li'))))
      else Inr li)"
  by pat_completeness auto
termination
  by (relation "measure (\<lambda>(points, i, xi, j, li). length points - j)") auto

declare inner_loop.simps [simp del]

text \<open>The outer \<^verbatim>\<open>for (let i = 0; i < k; i++)\<close> loop, from \<open>i\<close> on, with the running sum as
  accumulator.\<close>

function outer_loop :: "point option list \<Rightarrow> nat \<Rightarrow> frac \<Rightarrow> error + frac" where
  "outer_loop points i acc =
     (if i < length points then
        bindE (prop_x (points ! i)) (\<lambda>xi.
          bindE (prop_y (points ! i)) (\<lambda>yi.
            bindE (inner_loop points i xi 0 (1, 1)) (\<lambda>li.
              bindE (mulFrac (yi, 1) li) (\<lambda>term.
                bindE (addFrac acc term) (\<lambda>acc'. outer_loop points (i + 1) acc')))))
      else Inr acc)"
  by pat_completeness auto
termination
  by (relation "measure (\<lambda>(points, i, acc). length points - i)") auto

declare outer_loop.simps [simp del]

definition interpolateAtZero :: "point option list \<Rightarrow> error + int" where
  "interpolateAtZero points =
     bindE (outer_loop points 0 (0, 1)) (\<lambda>acc.
       bindE (normalizeFrac (fst acc) (snd acc)) (\<lambda>(num, den).
         bindE (bigRem num den) (\<lambda>r.
           if r \<noteq> 0 then Inl (NonInteger num den) else bigDiv num den)))"

section \<open>Subset enumerator\<close>

text \<open>
  \<^verbatim>\<open>while (i >= 0 && idx[i] === last - (k - 1 - i)) i--\<close>: \<open>i\<close> and \<open>last'\<close> (the
  source's \<^verbatim>\<open>last\<close>) are integers, since \<open>i\<close> ends at \<open>-1\<close> and \<open>last'\<close> is \<open>-1\<close>
  for \<open>n = 0\<close>; the entries of \<open>idx\<close> are natural numbers. The source counts in
  double-precision numbers, which are exact up to \<open>2\<^sup>5\<^sup>3\<close>; the model counts in
  unbounded integers and so follows the source as long as no index has reached that value.
\<close>

function scan :: "nat list \<Rightarrow> int \<Rightarrow> nat \<Rightarrow> int \<Rightarrow> int" where
  "scan idx last' k i =
     (if i \<ge> 0 \<and> int (idx ! nat i) = last' - (int k - 1 - i) then scan idx last' k (i - 1) else i)"
  by pat_completeness auto
termination
  by (relation "measure (\<lambda>(idx, last', k, i). nat (i + 1))") auto

declare scan.simps [simp del]

text \<open>\<^verbatim>\<open>for (let j = i + 1; j < k; j++) idx[j] = idx[j - 1] + 1\<close>, from \<open>j\<close> on.\<close>

function refill :: "nat list \<Rightarrow> nat \<Rightarrow> nat \<Rightarrow> nat list" where
  "refill idx k j = (if j < k then refill (idx[j := idx ! (j - 1) + 1]) k (j + 1) else idx)"
  by pat_completeness auto
termination
  by (relation "measure (\<lambda>(idx, k, j). k - j)") auto

declare refill.simps [simp del]

text \<open>One pass through the body of \<^verbatim>\<open>while (true)\<close>: \<open>None\<close> is the \<^verbatim>\<open>return\<close>,
  \<open>Some idx'\<close> the array at the next \<^verbatim>\<open>yield\<close>.\<close>

definition advance :: "int \<Rightarrow> nat \<Rightarrow> nat list \<Rightarrow> nat list option" where
  "advance last' k idx =
     (let i = scan idx last' k (int k - 1) in
      if i < 0 then None
      else Some (refill (idx[nat i := idx ! nat i + 1]) k (nat i + 1)))"

text \<open>The sequences yielded by the \<^verbatim>\<open>while (true)\<close> loop entered with \<open>idx\<close>; \<open>None\<close>
  when the loop never returns.\<close>

partial_function (option) generate :: "int \<Rightarrow> nat \<Rightarrow> nat list \<Rightarrow> nat list list option" where
  "generate last' k idx =
     (case advance last' k idx of
        None \<Rightarrow> Some []
      | Some idx' \<Rightarrow> Option.bind (generate last' k idx') (\<lambda>rest. Some (idx' # rest)))"

declare generate.simps [code]

text \<open>
  \<^verbatim>\<open>Array.from({ length: k }, (_, i) => i)\<close> is \<open>[0..<k]\<close> for \<open>k\<close> below \<open>2\<^sup>3\<^sup>2\<close>,
  the greatest length of an array; from \<open>2\<^sup>3\<^sup>2\<close> on it raises a RangeError, and the model
  does not cover such \<open>k\<close>.
\<close>

definition combinations :: "int \<Rightarrow> nat \<Rightarrow> nat list list option" where
  "combinations n k =
     (let idx = [0..<k]; last' = n - 1 in
      Option.bind (generate last' k idx) (\<lambda>rest. Some (idx # rest)))"

text \<open>The array at the \<open>j\<close>-th \<^verbatim>\<open>yield\<close> (counted from 0), \<open>None\<close> when the generator has
  returned before.\<close>

fun yielded :: "int \<Rightarrow> nat \<Rightarrow> nat \<Rightarrow> nat list option" where
  "yielded n k 0 = Some [0..<k]"
| "yielded n k (Suc j) = Option.bind (yielded n k j) (advance (n - 1) k)"

section \<open>Robust reconstruction\<close>

text \<open>
  The two \<^verbatim>\<open>Map\<close>s of \<^verbatim>\<open>main\<close>. \<open>cFreq\<close> is iterated, so it is an association list in
  insertion order (\<^verbatim>\<open>set\<close> on a present key keeps its place, on a new key appends);
  \<open>cMembers\<close> is only looked up. The key \<^verbatim>\<open>c.toString()\<close> is the decimal string of \<open>c\<close>,
  which determines \<open>c\<close> and which \<^verbatim>\<open>BigInt(bestC)\<close> reads back, so the key is the integer.
\<close>

record tally =
  cFreq :: "(int \<times> nat) list"
  cMembers :: "int \<rightharpoonup> nat set"

definition empty_tally :: tally where
  "empty_tally = \<lparr>cFreq = [], cMembers = Map.empty\<rparr>"

text \<open>\<^verbatim>\<open>combo.map(i => points[i])\<close>: an index beyond the array gives \<^verbatim>\<open>undefined\<close>.\<close>

definition subset_of :: "point list \<Rightarrow> nat list \<Rightarrow> point option list" where
  "subset_of points combo = map (\<lambda>i. if i < length points then Some (points ! i) else None) combo"

text \<open>The body of \<^verbatim>\<open>for (const combo of combinations(m, k))\<close>; the \<^verbatim>\<open>catch\<close> swallows
  every exception of \<^verbatim>\<open>interpolateAtZero\<close>.\<close>

definition tally_step :: "point list \<Rightarrow> tally \<Rightarrow> nat list \<Rightarrow> tally" where
  "tally_step points t combo =
     (case interpolateAtZero (subset_of points combo) of
        Inl e \<Rightarrow> t
      | Inr c \<Rightarrow>
          let key = c;
              freq = AList.update key ((case map_of (cFreq t) key of None \<Rightarrow> 0 | Some cnt \<Rightarrow> cnt) + 1) (cFreq t);
              members = (if key \<in> dom (cMembers t) then cMembers t else (cMembers t)(key \<mapsto> {}));
              members' = members(key \<mapsto> fold insert combo (the (members key)))
          in \<lparr>cFreq = freq, cMembers = members'\<rparr>)"

text \<open>The scan \<^verbatim>\<open>if (count > bestCount) { bestCount = count; bestC = key; }\<close> over the
  entries, started with \<^verbatim>\<open>bestC = null\<close>, \<^verbatim>\<open>bestCount = -1\<close>.\<close>

fun pick_best :: "(int \<times> nat) list \<Rightarrow> int option \<Rightarrow> int \<Rightarrow> int option \<times> int" where
  "pick_best [] bestC bestCount = (bestC, bestCount)"
| "pick_best ((key, count) # entries) bestC bestCount =
     (if int count > bestCount then pick_best entries (Some key) (int count)
      else pick_best entries bestC bestCount)"

record result =
  secret :: int
  outliers :: "point list"

text \<open>
  \<^verbatim>\<open>main\<close> from the validation of \<open>n\<close> and \<open>k\<close> on, given the decoded points: the value is
  \<open>None\<close> when the loop over the generator never ends, \<open>Some (Inl e)\<close> when \<^verbatim>\<open>main\<close>
  throws, and \<open>Some (Inr r)\<close> with what is printed otherwise. The generator does not depend
  on the loop body and the body cannot leave the loop, so the loop is a fold over the
  sequences the generator yields.
\<close>

definition main :: "int \<Rightarrow> int \<Rightarrow> point list \<Rightarrow> (error + result) option" where
  "main n k points =
     (if k < 2 \<or> n < k then Some (Inl (InvalidParams n k))
      else
        let m = min (int (length points)) n in
        case combinations m (nat k) of
          None \<Rightarrow> None
        | Some combos \<Rightarrow>
            let t = foldl (tally_step points) empty_tally combos in
            if cFreq t = [] then Some (Inl NoValidSubset)
            else
              (case fst (pick_best (cFreq t) None (- 1)) of
                 None \<Rightarrow> Some (Inl TypeError)
               | Some bestC \<Rightarrow>
                   let okSet = (case cMembers t bestC of None \<Rightarrow> {} | Some s \<Rightarrow> s);
                       outl = map (\<lambda>i. points ! i) (filter (\<lambda>i. i \<notin> okSet) [0..<nat m])
                   in Some (Inr \<lparr>secret = bestC, outliers = outl\<rparr>)))"

section \<open>Specification-side notions\<close>

text \<open>The digit table of the decoder's contract, on code units: \<^verbatim>\<open>0\<close>..\<^verbatim>\<open>9\<close> are 0 to
  9, letters are 10 to 35 in either case, and nothing else is a digit.\<close>

definition spec_digit_value :: "16 word \<Rightarrow> int option" where
  "spec_digit_value c =
     (if code_unit CHR ''0'' \<le> c \<and> c \<le> code_unit CHR ''9'' then Some (uint c - 48)
      else if code_unit CHR ''a'' \<le> c \<and> c \<le> code_unit CHR ''z'' then Some (uint c - 97 + 10)
      else if code_unit CHR ''A'' \<le> c \<and> c \<le> code_unit CHR ''Z'' then Some (uint c - 65 + 10)
      else None)"

definition valid_digit :: "int \<Rightarrow> 16 word \<Rightarrow> bool" where
  "valid_digit base c = (case spec_digit_value c of None \<Rightarrow> False | Some v \<Rightarrow> v < base)"

text \<open>Two characters that are the same digit up to the case of a letter.\<close>

definition same_digit_ci :: "16 word \<Rightarrow> 16 word \<Rightarrow> bool" where
  "same_digit_ci c d = (spec_digit_value c \<noteq> None \<and> spec_digit_value c = spec_digit_value d)"

definition is_invalid_digit :: "error \<Rightarrow> bool" where
  "is_invalid_digit e = (case e of InvalidDigit c \<Rightarrow> True | DigitGeBase c b \<Rightarrow> True | _ \<Rightarrow> False)"

text \<open>The invariant of a fraction: positive denominator, lowest terms, and \<open>(0, 1)\<close> for
  zero.\<close>

definition normal_frac :: "frac \<Rightarrow> bool" where
  "normal_frac f = (snd f > 0 \<and> gcd \<bar>fst f\<bar> (snd f) = 1 \<and> (fst f = 0 \<longrightarrow> f = (0, 1)))"

definition frac_val :: "frac \<Rightarrow> real" where
  "frac_val f = real_of_int (fst f) / real_of_int (snd f)"

text \<open>The value at \<open>t\<close> of the polynomial with the integer coefficients \<open>cs\<close>, constant term
  first.\<close>

definition poly_at :: "int list \<Rightarrow> int \<Rightarrow> int" where
  "poly_at cs t = (\<Sum>d<length cs. cs ! d * t ^ d)"

text \<open>The sequences the enumerator is to yield: \<open>k\<close> indices below \<open>m\<close>, strictly increasing.\<close>

definition increasing_within :: "nat \<Rightarrow> nat \<Rightarrow> nat list \<Rightarrow> bool" where
  "increasing_within m k c = (length c = k \<and> sorted_wrt (<) c \<and> (\<forall>i\<in>set c. i < m))"

section \<open>Notions used in the proofs\<close>

text \<open>The states of the generator from which it never returns: the last index is already
  beyond \<open>last'\<close>.\<close>

definition diverging :: "int \<Rightarrow> nat \<Rightarrow> nat list \<Rightarrow> bool" where
  "diverging last' k idx = (k \<ge> 1 \<and> length idx = k \<and> int (idx ! (k - 1)) > last')"

text \<open>What one pass of the loop body learns from a subset: the secret, or nothing when the
  interpolation throws.\<close>

definition outcome :: "point list \<Rightarrow> nat list \<Rightarrow> int option" where
  "outcome points combo =
     (case interpolateAtZero (subset_of points combo) of Inl e \<Rightarrow> None | Inr c \<Rightarrow> Some c)"

text \<open>The secrets of the subsets that interpolate, in enumeration order.\<close>

definition secrets_of :: "point list \<Rightarrow> nat list list \<Rightarrow> int list" where
  "secrets_of points combos = List.map_filter (outcome points) combos"

text \<open>\<^verbatim>\<open>cFreq.set(key, (cFreq.get(key) || 0) + 1)\<close> on the association list.\<close>

definition bump :: "(int \<times> nat) list \<Rightarrow> int \<Rightarrow> (int \<times> nat) list" where
  "bump fr c = AList.update c ((case map_of fr c of None \<Rightarrow> 0 | Some cnt \<Rightarrow> cnt) + 1) fr"

text \<open>\<^verbatim>\<open>cMembers.get(bestC) || new Set()\<close>.\<close>

definition okSet_of :: "tally \<Rightarrow> int \<Rightarrow> nat set" where
  "okSet_of t v = (case cMembers t v of None \<Rightarrow> {} | Some s \<Rightarrow> s)"

text \<open>Real functions that are polynomials of degree at most \<open>n\<close>.\<close>

definition polyfun_le :: "nat \<Rightarrow> (real \<Rightarrow> real) \<Rightarrow> bool" where
  "polyfun_le n f = (\<exists>c. \<forall>t. f t = (\<Sum>i\<le>n. c i * t ^ i))"

text \<open>The coordinates of a list of points as reals, and the Lagrange basis value and the
  interpolated value at 0 that \<open>interpolateAtZero\<close> computes with fractions.\<close>

definition xr :: "point list \<Rightarrow> nat \<Rightarrow> real" where
  "xr pts i = real_of_int (x (pts ! i))"

definition yr :: "point list \<Rightarrow> nat \<Rightarrow> real" where
  "yr pts i = real_of_int (y (pts ! i))"

definition basis0 :: "point list \<Rightarrow> nat \<Rightarrow> real" where
  "basis0 pts i = (\<Prod>j\<in>{0..<length pts} - {i}. (- xr pts j) / (xr pts i - xr pts j))"

definition lagrange0 :: "point list \<Rightarrow> real" where
  "lagrange0 pts = (\<Sum>i\<in>{0..<length pts}. yr pts i * basis0 pts i)"

text \<open>The same values over a set of indices into the decoded points.\<close>

definition basis_at0 :: "nat set \<Rightarrow> (nat \<Rightarrow> real) \<Rightarrow> nat \<Rightarrow> real" where
  "basis_at0 I X a = (\<Prod>a'\<in>I - {a}. (- X a') / (X a - X a'))"

definition lagrange_at0 :: "nat set \<Rightarrow> (nat \<Rightarrow> real) \<Rightarrow> (nat \<Rightarrow> real) \<Rightarrow> real" where
  "lagrange_at0 I X Y = (\<Sum>a\<in>I. Y a * basis_at0 I X a)"

definition X_of :: "point list \<Rightarrow> nat \<Rightarrow> real" where
  "X_of points a = real_of_int (x (points ! a))"

definition Y_of :: "point list \<Rightarrow> nat \<Rightarrow> real" where
  "Y_of points a = real_of_int (y (points ! a))"

section \<open>The digit decoder\<close>

lemma code_unit_simps:
  "code_unit CHR ''0'' = 0x30" "code_unit CHR ''9'' = 0x39"
  "code_unit CHR ''a'' = 0x61" "code_unit CHR ''z'' = 0x7A"
  "code_unit CHR ''A'' = 0x41" "code_unit CHR ''Z'' = 0x5A"
  by (simp_all add: code_unit_def)

lemma le_unit: "([a] \<le> (c :: 16 word list)) = (case c of [] \<Rightarrow> False | u # r \<Rightarrow> uint a \<le> uint u)"
  by (cases c) (auto simp: word_le_def word_less_def word_uint_eq_iff)

lemma unit_le: "((c :: 16 word list) \<le> [a]) = (case c of [] \<Rightarrow> True | u # r \<Rightarrow> uint u < uint a \<or> uint u = uint a \<and> r = [])"
  by (cases c) (auto simp: word_le_def word_less_def word_uint_eq_iff)

lemma toLowerCase_upper:
  assumes "65 \<le> uint u" and "uint u \<le> 90"
  shows "\<exists>w. toLowerCase [u] = [w] \<and> uint w = uint u + 32"
proof -
  have "uint (u + 0x20) = uint u + uint (0x20 :: 16 word)"
    using assms by (intro uint_plus_simple) (simp add: word_le_def uint_word_ariths)
  with assms show ?thesis by (simp add: toLowerCase_def word_le_def)
qed

lemma toLowerCase_other:
  assumes "\<not> (65 \<le> uint u \<and> uint u \<le> 90)" and "u \<noteq> 0x212A" and "u \<noteq> 0x130"
  shows "toLowerCase [u] = [u]"
  using assms by (simp add: toLowerCase_def word_le_def)

lemma charToVal_via:
  "toLowerCase ch = w # r \<Longrightarrow> charToVal ch =
    (if 48 \<le> uint w \<and> (uint w < 57 \<or> uint w = 57 \<and> r = []) then Inr (uint w - 48)
     else if 97 \<le> uint w \<and> (uint w < 122 \<or> uint w = 122 \<and> r = []) then Inr (10 + (uint w - 97))
     else Inl (InvalidDigit ch))"
  unfolding charToVal_def Let_def
  by (simp only: js_def list.map code_unit_simps le_unit unit_le charCodeAt0_def bindE_def) simp

lemma charToVal_unit:
  "charToVal [u] =
     (if u = 0x212A then Inr 20 else if u = 0x130 then Inr 18
      else case spec_digit_value u of None \<Rightarrow> Inl (InvalidDigit [u]) | Some v \<Rightarrow> Inr v)"
proof -
  consider (up) "65 \<le> uint u \<and> uint u \<le> 90" | (k) "u = 0x212A" | (i) "u = 0x130"
    | (other) "\<not> (65 \<le> uint u \<and> uint u \<le> 90)" "u \<noteq> 0x212A" "u \<noteq> 0x130"
    by blast
  then show ?thesis
  proof cases
    case up
    then obtain w where w: "toLowerCase [u] = [w]" "uint w = uint u + 32"
      using toLowerCase_upper by blast
    from up have ne: "u \<noteq> 0x212A" "u \<noteq> 0x130" by auto
    with up w(2) show ?thesis
      by (simp add: charToVal_via[OF w(1)] spec_digit_value_def code_unit_simps word_le_def) arith
  next
    case k
    then show ?thesis
      by (simp add: charToVal_def toLowerCase_def js_def code_unit_def charCodeAt0_def bindE_def)
  next
    case i
    then show ?thesis
      by (simp add: charToVal_def toLowerCase_def js_def code_unit_def charCodeAt0_def bindE_def)
  next
    case other
    from toLowerCase_other[OF other] have w: "toLowerCase [u] = [u]" .
    from other show ?thesis
      by (simp add: charToVal_via[OF w] spec_digit_value_def code_unit_simps word_le_def) arith
  qed
qed

lemma charToVal_pair:
  assumes "0xD800 \<le> u"
  shows "charToVal (u # v # rest) = Inl (InvalidDigit (u # v # rest))"
proof -
  have w: "toLowerCase (u # v # rest) = u # v # rest"
    by (simp add: toLowerCase_def)
  from assms have "55296 \<le> uint u" by (simp add: word_le_def)
  then show ?thesis by (simp add: charToVal_via[OF w])
qed

lemma charToVal_error: "charToVal ch = Inl e \<Longrightarrow> e = InvalidDigit ch"
  unfolding charToVal_def Let_def
  by (cases "toLowerCase ch")
     (auto simp: js_def charCodeAt0_def bindE_def split: if_splits)

lemma spec_digit_special:
  "spec_digit_value 0x212A = None" "spec_digit_value 0x130 = None"
  by (simp_all add: spec_digit_value_def code_unit_simps)

lemma spec_digit_plain: "spec_digit_value u = Some v \<Longrightarrow> u < 0xD800 \<and> u \<noteq> 0x212A \<and> u \<noteq> 0x130"
  unfolding spec_digit_value_def code_unit_simps
  by (auto simp: word_le_def word_less_def split: if_splits)

lemma code_points_plain:
  "\<forall>u\<in>set str. u < 0xD800 \<Longrightarrow> code_points str = map (\<lambda>u. [u]) str"
  by (induction str rule: code_points.induct) auto

lemma valid_digits_plain:
  "\<forall>c\<in>set str. valid_digit B c \<Longrightarrow> code_points str = map (\<lambda>u. [u]) str"
  by (rule code_points_plain) (auto simp: valid_digit_def dest: spec_digit_plain split: option.splits)

lemma charToVal_digit: "spec_digit_value u = Some v \<Longrightarrow> charToVal [u] = Inr v"
  by (frule spec_digit_plain) (simp add: charToVal_unit)

lemma decode_loop_valid:
  "\<forall>c\<in>set str. valid_digit B c \<Longrightarrow>
   decode_loop B acc (map (\<lambda>u. [u]) str)
     = Inr (foldl (\<lambda>a c. a * B + the (spec_digit_value c)) acc str)"
  by (induction str arbitrary: acc)
     (auto simp: charToVal_digit valid_digit_def split: option.splits)

lemma decode_loop_error_kind: "decode_loop B acc chs = Inl e \<Longrightarrow> is_invalid_digit e"
  by (induction chs arbitrary: acc)
     (auto simp: is_invalid_digit_def dest: charToVal_error split: sum.splits if_splits)

lemma same_digit_ci_decode:
  "list_all2 same_digit_ci s t \<Longrightarrow> \<forall>c\<in>set s. valid_digit B c \<Longrightarrow>
   decode_loop B acc (map (\<lambda>u. [u]) t) = decode_loop B acc (map (\<lambda>u. [u]) s)"
  by (induction s t arbitrary: acc rule: list_all2_induct)
     (auto simp: charToVal_digit valid_digit_def same_digit_ci_def split: option.splits)

lemma same_digit_ci_valid:
  "list_all2 same_digit_ci s t \<Longrightarrow> \<forall>c\<in>set s. valid_digit B c \<Longrightarrow> \<forall>c\<in>set t. valid_digit B c"
  by (induction s t rule: list_all2_induct) (auto simp: valid_digit_def same_digit_ci_def)

lemma decode_loop_fails_iff:
  "0x212A \<notin> set str \<Longrightarrow> 0x130 \<notin> set str \<Longrightarrow>
   (\<exists>e. decode_loop B acc (code_points str) = Inl e) \<longleftrightarrow> (\<exists>c\<in>set str. \<not> valid_digit B c)"
proof (induction str arbitrary: acc rule: code_points.induct)
  case 1
  show ?case by simp
next
  case (2 u)
  then show ?case
    by (auto simp: charToVal_unit valid_digit_def split: option.splits)
next
  case (3 u v rest)
  show ?case
  proof (cases "0xD800 \<le> u \<and> u \<le> 0xDBFF \<and> 0xDC00 \<le> v \<and> v \<le> 0xDFFF")
    case True
    then have "\<not> u < 0xD800" by (simp add: word_le_def word_less_def)
    then have "\<not> valid_digit B u"
      by (auto simp: valid_digit_def dest: spec_digit_plain split: option.splits)
    with True show ?thesis by (simp add: charToVal_pair)
  next
    case False
    from 3(3,4) have nv: "0x212A \<notin> set (v # rest)" "0x130 \<notin> set (v # rest)" and nu: "u \<noteq> 0x212A" "u \<noteq> 0x130"
      by auto
    have cp: "code_points (u # v # rest) = [u] # code_points (v # rest)"
      using False by simp
    show ?thesis
    proof (cases "spec_digit_value u")
      case None
      then show ?thesis using nu by (simp add: cp charToVal_unit valid_digit_def del: code_points.simps)
    next
      case (Some d)
      show ?thesis
      proof (cases "d < B")
        case True
        with Some nu 3(2)[OF False nv, of "acc * B + d"] show ?thesis
          by (simp add: cp charToVal_unit valid_digit_def del: code_points.simps)
      next
        case False
        with Some nu show ?thesis by (simp add: cp charToVal_unit valid_digit_def del: code_points.simps)
      qed
    qed
  qed
qed

lemma decode_ff: "decodeBaseToBigInt (js ''ff'') 16 = Inr 255"
  by (simp add: decodeBaseToBigInt_def js_def code_unit_def charToVal_unit spec_digit_value_def)

lemma decode_FF: "decodeBaseToBigInt (js ''FF'') 16 = Inr 255"
  by (simp add: decodeBaseToBigInt_def js_def code_unit_def charToVal_unit spec_digit_value_def)

lemma decode_g: "decodeBaseToBigInt (js ''g'') 16 = Inl (DigitGeBase (js ''g'') 16)"
  by (simp add: decodeBaseToBigInt_def js_def code_unit_def charToVal_unit spec_digit_value_def)

text \<open>
  C7. For a base between 2 and 36 and a digit string all of whose characters are digits of
  that base, \<open>decodeBaseToBigInt\<close> succeeds with the positional value: the characters taken
  left to right, \<open>acc * base + digit\<close> at each, on unbounded integers, with \<^verbatim>\<open>0\<close>..\<^verbatim>\<open>9\<close>
  worth 0 to 9 and letters worth 10 to 35 in either case. The result does not change when
  letters change case, and \<^verbatim>\<open>ff\<close> and \<^verbatim>\<open>FF\<close> in base 16 are both 255.
\<close>

theorem decode_positional_case_insensitive:
  assumes "2 \<le> base" and "base \<le> 36" and "\<forall>c\<in>set str. valid_digit base c"
  shows "decodeBaseToBigInt str base =
           Inr (foldl (\<lambda>acc c. acc * base + the (spec_digit_value c)) 0 str)
         \<and> (\<forall>str'. list_all2 same_digit_ci str str' \<longrightarrow>
               decodeBaseToBigInt str' base = decodeBaseToBigInt str base)
         \<and> decodeBaseToBigInt (js ''ff'') 16 = Inr 255
         \<and> decodeBaseToBigInt (js ''FF'') 16 = Inr 255"
proof -
  have positional: "decodeBaseToBigInt str base =
      Inr (foldl (\<lambda>acc c. acc * base + the (spec_digit_value c)) 0 str)"
    using assms(3) by (simp add: decodeBaseToBigInt_def valid_digits_plain decode_loop_valid)
  have any_case: "\<forall>str'. list_all2 same_digit_ci str str' \<longrightarrow>
      decodeBaseToBigInt str' base = decodeBaseToBigInt str base"
  proof (intro allI impI)
    fix str' assume s: "list_all2 same_digit_ci str str'"
    from same_digit_ci_valid[OF s assms(3)] have v': "\<forall>c\<in>set str'. valid_digit base c" .
    from same_digit_ci_decode[OF s assms(3)] show "decodeBaseToBigInt str' base = decodeBaseToBigInt str base"
      by (simp add: decodeBaseToBigInt_def valid_digits_plain[OF v'] valid_digits_plain[OF assms(3)])
  qed
  from positional any_case decode_ff decode_FF show ?thesis
    by (intro conjI)
qed

theorem decode_positional_case_insensitive_witness:
  "decodeBaseToBigInt (js ''1aZ'') 36 = Inr (1 * 36 * 36 + 10 * 36 + 35)
   \<and> decodeBaseToBigInt (js ''1Az'') 36 = decodeBaseToBigInt (js ''1aZ'') 36"
proof -
  have v: "\<forall>c\<in>set (js ''1aZ''). valid_digit 36 c"
    by (simp add: js_def code_unit_def valid_digit_def spec_digit_value_def)
  have s: "list_all2 same_digit_ci (js ''1aZ'') (js ''1Az'')"
    by (simp add: js_def code_unit_def same_digit_ci_def spec_digit_value_def)
  from decode_positional_case_insensitive[of 36 "js ''1aZ''", OF _ _ v] s show ?thesis
    by (simp add: js_def code_unit_def spec_digit_value_def)
qed

text \<open>On a string without the Kelvin sign and without the capital I with dot above,
  \<open>decodeBaseToBigInt\<close> fails exactly when some code unit is not an alphanumeric digit or
  is a digit whose value is at least the base, and every failure is one of the two
  invalid-digit errors.\<close>

lemma decode_fails_iff_plain:
  assumes "0x212A \<notin> set str" and "0x130 \<notin> set str"
  shows "((\<exists>e. decodeBaseToBigInt str base = Inl e \<and> is_invalid_digit e)
            \<longleftrightarrow> (\<exists>c\<in>set str. \<not> valid_digit base c))
         \<and> (\<forall>e. decodeBaseToBigInt str base = Inl e \<longrightarrow> is_invalid_digit e)"
proof -
  have "(\<exists>e. decode_loop base 0 (code_points str) = Inl e \<and> is_invalid_digit e)
          \<longleftrightarrow> (\<exists>e. decode_loop base 0 (code_points str) = Inl e)"
    using decode_loop_error_kind by blast
  then have fails_iff: "(\<exists>e. decodeBaseToBigInt str base = Inl e \<and> is_invalid_digit e)
      \<longleftrightarrow> (\<exists>c\<in>set str. \<not> valid_digit base c)"
    using decode_loop_fails_iff[OF assms, of base 0] by (simp add: decodeBaseToBigInt_def)
  have kind: "\<forall>e. decodeBaseToBigInt str base = Inl e \<longrightarrow> is_invalid_digit e"
    using decode_loop_error_kind[of base 0 "code_points str"] by (simp add: decodeBaseToBigInt_def)
  from fails_iff kind show ?thesis
    by (intro conjI)
qed

text \<open>
  C8, at the strings made of the Kelvin sign \<^verbatim>\<open>U+212A\<close> alone and of the capital I with
  dot above \<^verbatim>\<open>U+0130\<close> alone, in base 36: neither character is an alphanumeric digit,
  yet \<open>decodeBaseToBigInt\<close> does not fail. \<^verbatim>\<open>toLowerCase\<close> turns them into strings that
  pass the range check for \<^verbatim>\<open>a\<close>..\<^verbatim>\<open>z\<close>, and they are read as the digits 20 and 18.
  \<^verbatim>\<open>g\<close> in base 16 fails with an invalid-digit error.
\<close>

theorem decode_accepts_kelvin_sign:
  "decodeBaseToBigInt [0x212A] 36 = Inr 20 \<and> \<not> valid_digit 36 0x212A
   \<and> decodeBaseToBigInt [0x130] 36 = Inr 18 \<and> \<not> valid_digit 36 0x130
   \<and> decodeBaseToBigInt (js ''g'') 16 = Inl (DigitGeBase (js ''g'') 16)"
  by (simp add: decodeBaseToBigInt_def charToVal_unit valid_digit_def spec_digit_special decode_g[unfolded decodeBaseToBigInt_def])

text \<open>
  C10. Decoding the empty string succeeds with 0, for every base (so for every base
  between 2 and 36): the loop body never runs and no check rejects the empty string.
\<close>

theorem decode_empty_string: "decodeBaseToBigInt [] base = Inr 0"
  by (simp add: decodeBaseToBigInt_def)

section \<open>Fractions\<close>


lemma gcd_loop_eq: "0 \<le> a \<Longrightarrow> 0 \<le> b \<Longrightarrow> gcd_loop a b = gcd a b"
proof (induction a b rule: gcd_loop.induct)
  case (1 a b)
  show ?case
  proof (cases "b = 0")
    case True
    with 1 show ?thesis by (subst gcd_loop.simps) simp
  next
    case False
    with 1 have sm: "a smod b = a mod b"
      by (simp add: signed_modulo_int_def sgn_if)
    have "0 \<le> a mod b" using 1 False by simp
    with 1 False have "gcd_loop b (a smod b) = gcd b (a mod b)" by (simp add: sm)
    then show ?thesis using False
      by (subst gcd_loop.simps) (simp add: sm gcd.commute gcd_red_int[symmetric])
  qed
qed


lemma gcdBig_eq: "gcdBig a b = gcd a b"
  by (simp add: gcdBig_def absBig_def gcd_loop_eq)


lemma sdiv_exact: "g dvd a \<Longrightarrow> (a::int) sdiv g = a div g"
  by (simp add: signed_divide_int_eq_divide_int)


lemma normalizeFrac_eq:
  "normalizeFrac num den =
     (if den = 0 then Inl ZeroDenominator
      else if num = 0 then Inr (0, 1)
      else Inr ((sgn den * num) div gcd num den, \<bar>den\<bar> div gcd num den))"
proof -
  have g0: "num \<noteq> 0 \<Longrightarrow> gcd num den \<noteq> 0" by simp
  have n1: "- num div gcd num den = - (num div gcd num den)" by (simp add: dvd_neg_div)
  have n2: "- den div gcd num den = - (den div gcd num den)" by (simp add: dvd_neg_div)
  show ?thesis
    using g0 by (simp add: normalizeFrac_def Let_def gcdBig_eq bigDiv_def bindE_def absBig_def sdiv_exact sgn_if n1 n2)
qed


lemma normalizeFrac_normal:
  assumes "normalizeFrac num den = Inr f"
  shows "normal_frac f"
proof (cases "num = 0")
  case True
  with assms have "f = (0, 1)" by (simp add: normalizeFrac_eq split: if_splits)
  then show ?thesis by (simp add: normal_frac_def)
next
  case False
  let ?g = "gcd num den"
  let ?a = "sgn den * num"
  from assms have d: "den \<noteq> 0" by (simp add: normalizeFrac_eq split: if_splits)
  with False assms have f: "f = (?a div ?g, \<bar>den\<bar> div ?g)"
    by (simp add: normalizeFrac_eq)
  have g: "?g > 0" using False by (simp add: gcd_pos_int)
  have geq: "gcd ?a \<bar>den\<bar> = ?g" using d by (simp add: sgn_if)
  have "coprime (?a div gcd ?a \<bar>den\<bar>) (\<bar>den\<bar> div gcd ?a \<bar>den\<bar>)"
    using d by (intro div_gcd_coprime) simp
  then have cop: "coprime (?a div ?g) (\<bar>den\<bar> div ?g)"
    by (simp only: geq)
  have "?g dvd \<bar>den\<bar>" by simp
  then have "?g \<le> \<bar>den\<bar>" using d by (intro zdvd_imp_le) simp_all
  then have pos: "\<bar>den\<bar> div ?g > 0"
    using g by (simp only: pos_imp_zdiv_pos_iff)
  have "?a \<noteq> 0" using False d by (simp add: sgn_if)
  moreover have "?g dvd ?a" by simp
  ultimately have nz: "?a div ?g \<noteq> 0"
    by (simp only: dvd_div_eq_0_iff not_False_eq_True)
  have "gcd \<bar>?a div ?g\<bar> (\<bar>den\<bar> div ?g) = 1"
    using cop by (simp only: gcd_abs1_int coprime_iff_gcd_eq_1)
  with pos nz show ?thesis
    by (simp only: f normal_frac_def fst_conv snd_conv simp_thms)
qed

lemma normalizeFrac_idem:
  assumes "normal_frac f"
  shows "normalizeFrac (fst f) (snd f) = Inr f"
  using assms by (cases f) (auto simp: normalizeFrac_eq normal_frac_def sgn_if gcd.commute)


lemma normalizeFrac_total: "den \<noteq> 0 \<Longrightarrow> \<exists>f. normalizeFrac num den = Inr f"
  by (simp add: normalizeFrac_eq)


lemma normalizeFrac_val:
  assumes "normalizeFrac num den = Inr f"
  shows "frac_val f = real_of_int num / real_of_int den"
proof (cases "num = 0")
  case True
  with assms show ?thesis by (auto simp: normalizeFrac_eq frac_val_def split: if_splits)
next
  case False
  let ?g = "gcd num den"
  from assms have d: "den \<noteq> 0" by (auto simp: normalizeFrac_eq split: if_splits)
  with False assms have f: "f = ((sgn den * num) div ?g, \<bar>den\<bar> div ?g)"
    by (simp add: normalizeFrac_eq)
  have g: "real_of_int ?g \<noteq> 0" using False by simp
  have a: "real_of_int ((sgn den * num) div ?g) = real_of_int (sgn den * num) / real_of_int ?g"
    by (rule real_of_int_div) simp
  have b: "real_of_int (\<bar>den\<bar> div ?g) = real_of_int \<bar>den\<bar> / real_of_int ?g"
    by (rule real_of_int_div) simp
  have "frac_val f = (real_of_int (sgn den * num) / real_of_int ?g) / (real_of_int \<bar>den\<bar> / real_of_int ?g)"
    by (simp only: f frac_val_def fst_conv snd_conv a b)
  also have "\<dots> = real_of_int (sgn den * num) / real_of_int \<bar>den\<bar>"
    using g by simp
  also have "\<dots> = real_of_int num / real_of_int den"
    using d by (simp add: sgn_if)
  finally show ?thesis .
qed


lemma normalizeFrac_snd: "normalizeFrac num den = Inr f \<Longrightarrow> snd f \<noteq> 0"
  using normalizeFrac_normal[of num den f] by (simp add: normal_frac_def)


text \<open>
  C6. \<open>normalizeFrac\<close>, \<open>addFrac\<close> and \<open>mulFrac\<close> succeed on non-zero denominators, and
  every fraction they return has a positive denominator, is in lowest terms
  (\<open>gcd \<bar>numerator\<bar> denominator = 1\<close>) and is \<open>(0, 1)\<close> when its numerator is 0; a zero
  numerator is normalized to \<open>(0, 1)\<close>; and normalizing a returned fraction again gives it
  back.
\<close>


theorem fractions_stay_normalized:
  "(den \<noteq> 0 \<longrightarrow> (\<exists>f. normalizeFrac num den = Inr f) \<and> normalizeFrac 0 den = Inr (0, 1))
   \<and> (snd a \<noteq> 0 \<and> snd b \<noteq> 0 \<longrightarrow> (\<exists>f. addFrac a b = Inr f) \<and> (\<exists>f. mulFrac a b = Inr f))
   \<and> (\<forall>f. normalizeFrac num den = Inr f \<or> addFrac a b = Inr f \<or> mulFrac a b = Inr f \<longrightarrow>
         snd f > 0 \<and> gcd \<bar>fst f\<bar> (snd f) = 1 \<and> (fst f = 0 \<longrightarrow> f = (0, 1))
         \<and> normalizeFrac (fst f) (snd f) = Inr f)"
proof -
  have total: "den \<noteq> 0 \<longrightarrow> (\<exists>f. normalizeFrac num den = Inr f) \<and> normalizeFrac 0 den = Inr (0, 1)"
    by (simp add: normalizeFrac_eq)
  have ops: "snd a \<noteq> 0 \<and> snd b \<noteq> 0 \<longrightarrow> (\<exists>f. addFrac a b = Inr f) \<and> (\<exists>f. mulFrac a b = Inr f)"
    by (cases a; cases b) (auto simp: addFrac_def mulFrac_def normalizeFrac_eq)
  have normal: "normal_frac f"
    if "normalizeFrac num den = Inr f \<or> addFrac a b = Inr f \<or> mulFrac a b = Inr f" for f
    using that by (cases a; cases b) (auto simp: addFrac_def mulFrac_def dest: normalizeFrac_normal)
  have inv: "\<forall>f. normalizeFrac num den = Inr f \<or> addFrac a b = Inr f \<or> mulFrac a b = Inr f \<longrightarrow>
         snd f > 0 \<and> gcd \<bar>fst f\<bar> (snd f) = 1 \<and> (fst f = 0 \<longrightarrow> f = (0, 1))
         \<and> normalizeFrac (fst f) (snd f) = Inr f"
    using normal normalizeFrac_idem by (auto simp: normal_frac_def)
  from total ops inv show ?thesis by (intro conjI)
qed


theorem fractions_stay_normalized_witness:
  "normalizeFrac 6 (- 4) = Inr (- 3, 2) \<and> normalizeFrac (- 3) 2 = Inr (- 3, 2)
   \<and> normalizeFrac 0 (- 4) = Inr (0, 1)
   \<and> addFrac (1, 2) (1, - 6) = Inr (1, 3) \<and> mulFrac (1, 2) (1, - 6) = Inr (- 1, 12)
   \<and> gcd \<bar>- 3\<bar> (2::int) = 1"
proof -
  have n: "normalizeFrac 6 (- 4) = Inr (- 3, 2)" by code_simp
  have a: "addFrac (1, 2) (1, - 6) = Inr (1, 3)" by code_simp
  have m: "mulFrac (1, 2) (1, - 6) = Inr (- 1, 12)" by code_simp
  from fractions_stay_normalized[of "- 4" 6 "(1, 2)" "(1, - 6)"] n a m show ?thesis
    by simp
qed

section \<open>The generator below its domain\<close>


lemma failed_Inl [simp]: "failed (Inl e)"
  by (simp add: failed_def)

lemma failed_Inr [simp]: "\<not> failed (Inr v)"
  by (simp add: failed_def)




lemma scan_stop:
  "\<not> (0 \<le> i \<and> int (idx ! nat i) = last' - (int k - 1 - i)) \<Longrightarrow> scan idx last' k i = i"
  by (subst scan.simps) auto

lemma scan_step:
  "0 \<le> i \<Longrightarrow> int (idx ! nat i) = last' - (int k - 1 - i) \<Longrightarrow>
   scan idx last' k i = scan idx last' k (i - 1)"
  by (subst scan.simps) simp

lemma refill_done: "k \<le> j \<Longrightarrow> refill idx k j = idx"
  by (subst refill.simps) simp

lemma advance_diverging:
  assumes "diverging last' k idx"
  shows "advance last' k idx = Some (idx[k - 1 := idx ! (k - 1) + 1])"
proof -
  from assms have k: "k \<ge> 1" and l: "int (idx ! (k - 1)) > last'"
    by (simp_all add: diverging_def)
  have n: "nat (int k - 1) = k - 1" by simp
  have "scan idx last' k (int k - 1) = int k - 1"
    using l by (intro scan_stop) (simp add: n)
  then show ?thesis
    using k by (simp add: advance_def n refill_done)
qed

lemma diverging_advance:
  assumes "diverging last' k idx"
  shows "diverging last' k (idx[k - 1 := idx ! (k - 1) + 1])"
  using assms by (simp add: diverging_def)

lemma generate_diverges:
  assumes "diverging last' k idx"
  shows "generate last' k idx = None"
proof (rule ccontr)
  assume "generate last' k idx \<noteq> None"
  then obtain ys where ys: "generate last' k idx = Some ys" by blast
  have step: "\<not> diverging l k' i"
    if IH: "\<And>l k' i r. gen l k' i = Some r \<Longrightarrow> \<not> diverging l k' i"
      and unfolded: "(case advance l k' i of None \<Rightarrow> Some []
            | Some i' \<Rightarrow> Option.bind (gen l k' i') (\<lambda>rest. Some (i' # rest))) = Some r"
    for gen l k' i r
  proof
    assume d: "diverging l k' i"
    let ?i' = "i[k' - 1 := i ! (k' - 1) + 1]"
    from unfolded have "Option.bind (gen l k' ?i') (\<lambda>rest. Some (?i' # rest)) = Some r"
      by (simp add: advance_diverging[OF d])
    then have "\<exists>rest. gen l k' ?i' = Some rest"
      by (cases "gen l k' ?i'") simp_all
    then have "\<not> diverging l k' ?i'" using IH by blast
    with diverging_advance[OF d] show False by blast
  qed
  have "\<not> diverging last' k idx"
    by (rule generate.raw_induct[where P = "\<lambda>l k' i r. \<not> diverging l k' i", OF step ys])
  with assms show False by simp
qed

lemma diverging_start: "k \<ge> 1 \<Longrightarrow> n < int k \<Longrightarrow> diverging (n - 1) k [0..<k]"
  by (simp add: diverging_def)

lemma combinations_diverges: "k \<ge> 1 \<Longrightarrow> n < int k \<Longrightarrow> combinations n k = None"
  by (simp add: combinations_def generate_diverges diverging_start)









text \<open>
  C3, at \<open>m = 1\<close> and \<open>k = 2\<close>, where there is no strictly increasing pair over \<open>0..0\<close> and
  \<open>C(1, 2) = 0\<close>: the generator first yields \<open>[0, 1]\<close>, then \<open>[0, 2]\<close>, and so on for
  ever, so it yields no finite sequence of sequences.
\<close>

theorem combinations_1_2_never_returns:
  "combinations 1 2 = None \<and> (\<forall>j. yielded 1 2 j = Some [0, Suc j]) \<and> (1::nat) choose 2 = 0"
proof -
  have c: "combinations 1 2 = None"
    by (rule combinations_diverges) simp_all
  have y: "yielded 1 2 j = Some [0, Suc j]" for j
  proof (induction j)
    case 0
    have "[0..<2] = [0, Suc 0]" by (simp add: upt_conv_Cons)
    then show ?case by simp
  next
    case (Suc j)
    have "diverging 0 2 [0, Suc j]" by (simp add: diverging_def)
    from advance_diverging[OF this] Suc show ?case by simp
  qed
  have b: "(1::nat) choose 2 = 0" by simp
  from c y b show ?thesis by blast
qed

text \<open>
  C5, with \<open>n = 2\<close>, \<open>k = 2\<close> and a single decoded point: every sequence the generator
  yields holds an index beyond the point, so every subset fails, yet \<open>main\<close> does not fail
  with the no-valid-subset error: it never returns.
\<close>

theorem main_one_point_never_returns:
  "main 2 2 [\<lparr>x = 1, y = 4, label = ''1''\<rparr>] = None
   \<and> main 2 2 [\<lparr>x = 1, y = 4, label = ''1''\<rparr>] \<noteq> Some (Inl NoValidSubset)"
proof -
  have "combinations 1 2 = None"
    by (rule combinations_diverges) simp_all
  then show ?thesis by (simp add: main_def)
qed

section \<open>The tally and the winner\<close>

lemma cFreq_tally_step:
  "cFreq (tally_step points t combo) =
     (case outcome points combo of None \<Rightarrow> cFreq t | Some c \<Rightarrow> bump (cFreq t) c)"
  by (simp add: tally_step_def outcome_def bump_def Let_def split: sum.splits)

lemma cFreq_foldl:
  "cFreq (foldl (tally_step points) t combos) = foldl bump (cFreq t) (secrets_of points combos)"
proof (induction combos arbitrary: t)
  case Nil
  show ?case by (simp add: secrets_of_def map_filter_simps)
next
  case (Cons combo combos)
  show ?case
    by (cases "outcome points combo")
       (simp_all add: Cons.IH cFreq_tally_step secrets_of_def map_filter_simps)
qed

lemma keys_bump: "map fst (bump fr c) = (if c \<in> set (map fst fr) then map fst fr else map fst fr @ [c])"
  by (simp add: bump_def update_keys)

lemma keys_tally: "map fst (foldl bump [] vs) = rev (remdups (rev vs))"
proof (induction vs rule: rev_induct)
  case Nil
  show ?case by simp
next
  case (snoc v vs)
  then show ?case by (simp add: keys_bump)
qed

lemma counts_tally:
  "map_of (foldl bump [] vs) v = (if v \<in> set vs then Some (count_list vs v) else None)"
proof (induction vs rule: rev_induct)
  case Nil
  show ?case by simp
next
  case (snoc u vs)
  then show ?case by (auto simp: bump_def update_conv')
qed

lemma distinct_keys_tally: "distinct (map fst (foldl bump [] vs))"
  by (simp add: keys_tally)

lemma entry_count:
  assumes "(v, c) \<in> set (foldl bump [] vs)"
  shows "c = count_list vs v" and "v \<in> set vs"
proof -
  from assms have "map_of (foldl bump [] vs) v = Some c"
    by (simp add: distinct_keys_tally)
  then show "c = count_list vs v" and "v \<in> set vs"
    by (simp_all add: counts_tally split: if_splits)
qed

lemma remdups_app: "remdups (xs @ ys) = remdups [u\<leftarrow>xs. u \<notin> set ys] @ remdups ys"
  by (induction xs) auto

lemma first_keys_split:
  assumes "rev (remdups (rev vs)) = kpre @ w # kpost"
  shows "\<exists>vpre vpost. vs = vpre @ w # vpost \<and> w \<notin> set vpre \<and> set vpre \<subseteq> set kpre"
proof -
  have "w \<in> set (rev (remdups (rev vs)))" by (subst assms) simp
  then have "w \<in> set vs" by simp
  then obtain vpre vpost where vs: "vs = vpre @ w # vpost" and w: "w \<notin> set vpre"
    by (meson split_list_first)
  let ?A = "rev (remdups (rev vpre))"
  let ?B = "rev (remdups [u\<leftarrow>rev vpost. u \<noteq> w \<and> u \<notin> set vpre])"
  have k: "rev (remdups (rev vs)) = ?A @ w # ?B"
    using w by (simp add: vs remdups_app)
  have eq: "kpre @ w # kpost = ?A @ w # ?B"
    by (rule trans[OF assms[symmetric] k])
  have "distinct (rev (remdups (rev vs)))" by simp
  then have "distinct (kpre @ w # kpost)" by (simp only: assms)
  then have a: "w \<notin> set kpre" and b: "w \<notin> set kpost" by simp_all
  have "kpre = ?A"
    by (rule append_Cons_eq_iff[OF a b, THEN iffD1, OF eq, THEN conjunct1])
  then have "set vpre \<subseteq> set kpre" by simp
  with vs w show ?thesis by blast
qed

lemma pick_best_spec:
  "pick_best entries b bc = (b', bc') \<Longrightarrow>
     (b' = b \<and> bc' = bc \<and> (\<forall>e\<in>set entries. int (snd e) \<le> bc))
     \<or> (\<exists>pre k c post. entries = pre @ (k, c) # post \<and> b' = Some k \<and> bc' = int c \<and> int c > bc
            \<and> (\<forall>e\<in>set pre. snd e < c) \<and> (\<forall>e\<in>set post. snd e \<le> c))"
proof (induction entries b bc rule: pick_best.induct)
  case (1 bestC bestCount)
  then show ?case by simp
next
  case (2 key count entries bestC bestCount)
  show ?case
  proof (cases "int count > bestCount")
    case True
    with 2 have pb: "pick_best entries (Some key) (int count) = (b', bc')" by simp
    from 2(1)[OF True pb] show ?thesis
    proof
      assume "b' = Some key \<and> bc' = int count \<and> (\<forall>e\<in>set entries. int (snd e) \<le> int count)"
      then have "(key, count) # entries = [] @ (key, count) # entries \<and> b' = Some key \<and> bc' = int count
          \<and> int count > bestCount \<and> (\<forall>e\<in>set []. snd e < count) \<and> (\<forall>e\<in>set entries. snd e \<le> count)"
        using True by simp
      then show ?thesis by blast
    next
      assume "\<exists>pre k c post. entries = pre @ (k, c) # post \<and> b' = Some k \<and> bc' = int c \<and> int count < int c
            \<and> (\<forall>e\<in>set pre. snd e < c) \<and> (\<forall>e\<in>set post. snd e \<le> c)"
      then obtain pre k c post where h: "entries = pre @ (k, c) # post" "b' = Some k" "bc' = int c"
          "int count < int c" "\<forall>e\<in>set pre. snd e < c" "\<forall>e\<in>set post. snd e \<le> c"
        by blast
      then have "(key, count) # entries = ((key, count) # pre) @ (k, c) # post \<and> b' = Some k \<and> bc' = int c
          \<and> int c > bestCount \<and> (\<forall>e\<in>set ((key, count) # pre). snd e < c) \<and> (\<forall>e\<in>set post. snd e \<le> c)"
        using True by simp
      then show ?thesis by blast
    qed
  next
    case False
    with 2 have pb: "pick_best entries bestC bestCount = (b', bc')" by simp
    from 2(2)[OF False pb] show ?thesis
    proof
      assume "b' = bestC \<and> bc' = bestCount \<and> (\<forall>e\<in>set entries. int (snd e) \<le> bestCount)"
      then show ?thesis using False by simp
    next
      assume "\<exists>pre k c post. entries = pre @ (k, c) # post \<and> b' = Some k \<and> bc' = int c \<and> bestCount < int c
            \<and> (\<forall>e\<in>set pre. snd e < c) \<and> (\<forall>e\<in>set post. snd e \<le> c)"
      then obtain pre k c post where h: "entries = pre @ (k, c) # post" "b' = Some k" "bc' = int c"
          "bestCount < int c" "\<forall>e\<in>set pre. snd e < c" "\<forall>e\<in>set post. snd e \<le> c"
        by blast
      then have "(key, count) # entries = ((key, count) # pre) @ (k, c) # post \<and> b' = Some k \<and> bc' = int c
          \<and> int c > bestCount \<and> (\<forall>e\<in>set ((key, count) # pre). snd e < c) \<and> (\<forall>e\<in>set post. snd e \<le> c)"
        using False by simp
      then show ?thesis by blast
    qed
  qed
qed


lemma winner_first_seen:
  assumes "pick_best (foldl bump [] vs) None (- 1) = (Some w, bc)"
  shows "\<exists>pre post. vs = pre @ w # post
           \<and> (\<forall>u\<in>set pre. count_list vs u < count_list vs w)
           \<and> (\<forall>u\<in>set post. count_list vs u \<le> count_list vs w)"
proof -
  let ?fr = "foldl bump [] vs"
  from pick_best_spec[OF assms] obtain epre c epost
    where fr: "?fr = epre @ (w, c) # epost"
      and lt: "\<forall>e\<in>set epre. snd e < c" and le: "\<forall>e\<in>set epost. snd e \<le> c"
    by auto
  have cw: "c = count_list vs w"
    by (rule entry_count(1)[of w c vs]) (simp add: fr)
  have "rev (remdups (rev vs)) = map fst epre @ w # map fst epost"
    using keys_tally[of vs] by (simp add: fr)
  from first_keys_split[OF this] obtain pre post
    where vs: "vs = pre @ w # post" and sub: "set pre \<subseteq> set (map fst epre)"
    by blast
  have before: "count_list vs u < count_list vs w" if "u \<in> set pre" for u
  proof -
    from that sub obtain c' where e: "(u, c') \<in> set epre" by auto
    then have "(u, c') \<in> set ?fr" by (simp add: fr)
    then have "c' = count_list vs u" by (rule entry_count(1))
    with lt e cw show ?thesis by auto
  qed
  have after: "count_list vs u \<le> count_list vs w" if "u \<in> set post" for u
  proof -
    from that have "u \<in> set vs" by (simp add: vs)
    then have "map_of ?fr u = Some (count_list vs u)" by (simp add: counts_tally)
    then have "(u, count_list vs u) \<in> set ?fr" by (rule map_of_SomeD)
    then have "(u, count_list vs u) \<in> set epre \<or> (u, count_list vs u) = (w, c)
        \<or> (u, count_list vs u) \<in> set epost"
      by (auto simp: fr)
    with lt le cw show ?thesis by force
  qed
  from vs before after show ?thesis by blast
qed

section \<open>Polynomial functions and Lagrange interpolation\<close>

lemma polyfun_leI: "(\<And>t. f t = (\<Sum>i\<le>n. c i * t ^ i)) \<Longrightarrow> polyfun_le n f"
  unfolding polyfun_le_def by (rule exI[of _ c]) simp

lemma polyfun_le_poly: "polyfun_le n (\<lambda>t. \<Sum>i\<le>n. c i * t ^ i)"
  unfolding polyfun_le_def by blast

lemma polyfun_le_const: "polyfun_le n (\<lambda>t. a)"
proof -
  have "a = (\<Sum>i\<le>n. (if i = 0 then a else 0) * t ^ i)" for t :: real
    by (simp add: if_distrib[of "\<lambda>c. c * _"] sum.delta' cong: if_cong)
  then show ?thesis by (rule polyfun_leI)
qed

lemma polyfun_le_add:
  assumes "polyfun_le n f" and "polyfun_le n g"
  shows "polyfun_le n (\<lambda>t. f t + g t)"
proof -
  from assms obtain c d where "\<forall>t. f t = (\<Sum>i\<le>n. c i * t ^ i)" "\<forall>t. g t = (\<Sum>i\<le>n. d i * t ^ i)"
    unfolding polyfun_le_def by blast
  then have "f t + g t = (\<Sum>i\<le>n. (c i + d i) * t ^ i)" for t
    by (simp add: sum.distrib distrib_right)
  then show ?thesis by (rule polyfun_leI)
qed

lemma polyfun_le_scale:
  assumes "polyfun_le n f"
  shows "polyfun_le n (\<lambda>t. a * f t)"
proof -
  from assms obtain c where "\<forall>t. f t = (\<Sum>i\<le>n. c i * t ^ i)"
    unfolding polyfun_le_def by blast
  then have "a * f t = (\<Sum>i\<le>n. (a * c i) * t ^ i)" for t
    by (simp add: sum_distrib_left mult.assoc)
  then show ?thesis by (rule polyfun_leI)
qed

lemma polyfun_le_diff:
  assumes "polyfun_le n f" and "polyfun_le n g"
  shows "polyfun_le n (\<lambda>t. f t - g t)"
  using polyfun_le_add[OF assms(1) polyfun_le_scale[OF assms(2), of "- 1"]] by simp

lemma polyfun_le_sum:
  assumes "finite S" and "\<And>i. i \<in> S \<Longrightarrow> polyfun_le n (f i)"
  shows "polyfun_le n (\<lambda>t. \<Sum>i\<in>S. f i t)"
  using assms
proof (induction S rule: finite_induct)
  case empty
  show ?case using polyfun_le_const[of n 0] by simp
next
  case (insert a S)
  then show ?case by (simp add: polyfun_le_add)
qed

lemma polyfun_le_linear_factor:
  assumes "polyfun_le n f"
  shows "polyfun_le (Suc n) (\<lambda>t. (t - a) * f t)"
proof -
  from assms obtain c where c: "\<forall>t. f t = (\<Sum>i\<le>n. c i * t ^ i)"
    unfolding polyfun_le_def by blast
  let ?c' = "\<lambda>i. (if i = 0 then 0 else c (i - 1)) - a * (if i \<le> n then c i else 0)"
  have "(t - a) * f t = (\<Sum>i\<le>Suc n. ?c' i * t ^ i)" for t
  proof -
    have s1: "(\<Sum>i\<le>Suc n. (if i = 0 then 0 else c (i - 1)) * t ^ i) = t * (\<Sum>i\<le>n. c i * t ^ i)"
      by (simp add: sum.atMost_Suc_shift sum_distrib_left mult_ac del: sum.atMost_Suc)
    have s2: "(\<Sum>i\<le>Suc n. (a * (if i \<le> n then c i else 0)) * t ^ i) = a * (\<Sum>i\<le>n. c i * t ^ i)"
      by (simp add: sum_distrib_left mult_ac)
    have "(\<Sum>i\<le>Suc n. ?c' i * t ^ i)
        = (\<Sum>i\<le>Suc n. (if i = 0 then 0 else c (i - 1)) * t ^ i)
          - (\<Sum>i\<le>Suc n. (a * (if i \<le> n then c i else 0)) * t ^ i)"
      by (simp only: left_diff_distrib sum_subtractf)
    also have "\<dots> = (t - a) * f t"
      by (simp only: s1 s2 c left_diff_distrib)
    finally show ?thesis by simp
  qed
  then show ?thesis by (rule polyfun_leI)
qed

lemma polyfun_le_Suc:
  assumes "polyfun_le n f"
  shows "polyfun_le (Suc n) f"
proof -
  from assms obtain c where c: "\<forall>t. f t = (\<Sum>i\<le>n. c i * t ^ i)"
    unfolding polyfun_le_def by blast
  have "f t = (\<Sum>i\<le>Suc n. (if i \<le> n then c i else 0) * t ^ i)" for t
    by (simp add: c)
  then show ?thesis by (rule polyfun_leI)
qed

lemma polyfun_le_mono: "polyfun_le n f \<Longrightarrow> n \<le> m \<Longrightarrow> polyfun_le m f"
  by (induction m) (auto simp: le_Suc_eq polyfun_le_Suc)

lemma polyfun_le_prod_linear:
  assumes "finite S"
  shows "polyfun_le (card S) (\<lambda>t. \<Prod>j\<in>S. (t - a j))"
  using assms
proof (induction S rule: finite_induct)
  case empty
  show ?case using polyfun_le_const[of 0 1] by simp
next
  case (insert b S)
  then show ?case using polyfun_le_linear_factor[of "card S" "\<lambda>t. \<Prod>j\<in>S. (t - a j)" "a b"]
    by simp
qed

lemma polyfun_le_many_roots:
  assumes "polyfun_le n f" and "finite R" and "card R > n" and "\<And>r. r \<in> R \<Longrightarrow> f r = 0"
  shows "f t = 0"
proof -
  from assms(1) obtain c where c: "\<forall>t. f t = (\<Sum>i\<le>n. c i * t ^ i)"
    unfolding polyfun_le_def by blast
  have "\<forall>i\<le>n. c i = 0"
  proof (rule ccontr)
    assume "\<not> (\<forall>i\<le>n. c i = 0)"
    then obtain k where k: "c k \<noteq> 0" "k \<le> n" by blast
    from polyfun_rootbound[of c k n, OF k]
    have fin: "finite {z. (\<Sum>i\<le>n. c i * z ^ i) = 0}" and le: "card {z. (\<Sum>i\<le>n. c i * z ^ i) = 0} \<le> n"
      by blast+
    have "R \<subseteq> {z. (\<Sum>i\<le>n. c i * z ^ i) = 0}"
      using assms(4) c by auto
    then have "card R \<le> card {z. (\<Sum>i\<le>n. c i * z ^ i) = 0}"
      using fin by (rule card_mono[rotated])
    with le assms(3) show False by simp
  qed
  then show ?thesis by (simp add: c)
qed


lemma lagrange_basis_at_node:
  fixes xs :: "nat \<Rightarrow> real"
  assumes "finite I" and "inj_on xs I" and "m \<in> I" and "i \<in> I"
  shows "(\<Prod>j\<in>I - {i}. (xs m - xs j) / (xs i - xs j)) = (if i = m then 1 else 0)"
proof (cases "i = m")
  case True
  have "(\<Prod>j\<in>I - {m}. (xs m - xs j) / (xs m - xs j)) = (\<Prod>j\<in>I - {m}. 1)"
  proof (rule prod.cong[OF refl])
    fix j assume "j \<in> I - {m}"
    with assms(2,3) have "xs m \<noteq> xs j" by (auto simp: inj_on_def)
    then show "(xs m - xs j) / (xs m - xs j) = 1" by simp
  qed
  with True show ?thesis by simp
next
  case False
  with assms have "m \<in> I - {i}" and "finite (I - {i})" by simp_all
  moreover have "(xs m - xs m) / (xs i - xs m) = 0" by simp
  ultimately have "(\<Prod>j\<in>I - {i}. (xs m - xs j) / (xs i - xs j)) = 0"
    by (meson prod_zero)
  with False show ?thesis by simp
qed

lemma lagrange_exact:
  fixes xs :: "nat \<Rightarrow> real"
  assumes fin: "finite I" and inj: "inj_on xs I" and deg: "n < card I"
  shows "(\<Sum>i\<in>I. (\<Sum>d\<le>n. c d * xs i ^ d) * (\<Prod>j\<in>I - {i}. (t - xs j) / (xs i - xs j)))
           = (\<Sum>d\<le>n. c d * t ^ d)"
proof -
  let ?p = "\<lambda>t. \<Sum>d\<le>n. c d * t ^ d"
  let ?L = "\<lambda>i t. \<Prod>j\<in>I - {i}. (t - xs j) / (xs i - xs j)"
  let ?D = "\<lambda>t. (\<Sum>i\<in>I. ?p (xs i) * ?L i t) - ?p t"
  have summand: "polyfun_le (card I - 1) (\<lambda>t. ?p (xs i) * ?L i t)" if "i \<in> I" for i
  proof -
    have "polyfun_le (card (I - {i})) (\<lambda>t. \<Prod>j\<in>I - {i}. (t - xs j))"
      using fin by (intro polyfun_le_prod_linear) simp
    then have "polyfun_le (card I - 1) (\<lambda>t. \<Prod>j\<in>I - {i}. (t - xs j))"
      using that fin by simp
    then have "polyfun_le (card I - 1)
        (\<lambda>t. (?p (xs i) / (\<Prod>j\<in>I - {i}. (xs i - xs j))) * (\<Prod>j\<in>I - {i}. (t - xs j)))"
      by (rule polyfun_le_scale)
    then show ?thesis by (simp add: prod_dividef)
  qed
  have "polyfun_le (card I - 1) (\<lambda>t. \<Sum>i\<in>I. ?p (xs i) * ?L i t)"
    using fin summand by (rule polyfun_le_sum)
  moreover have "polyfun_le (card I - 1) ?p"
    using deg by (intro polyfun_le_mono[OF polyfun_le_poly]) simp
  ultimately have pf: "polyfun_le (card I - 1) ?D"
    by (rule polyfun_le_diff)
  have root: "?D r = 0" if "r \<in> xs ` I" for r
  proof -
    from that obtain m where m: "m \<in> I" "r = xs m" by blast
    have "(\<Sum>i\<in>I. ?p (xs i) * ?L i (xs m)) = (\<Sum>i\<in>I. if i = m then ?p (xs m) else 0)"
      by (rule sum.cong[OF refl]) (simp add: lagrange_basis_at_node[OF fin inj m(1)])
    also have "\<dots> = ?p (xs m)"
      using fin m(1) by (simp add: sum.delta)
    finally show ?thesis by (simp add: m(2))
  qed
  have "card (xs ` I) = card I" using inj by (rule card_image)
  then have "card (xs ` I) > card I - 1" using deg by simp
  from polyfun_le_many_roots[OF pf _ this root, of t] fin show ?thesis by simp
qed

lemma lagrange_exact_at_zero:
  fixes xs :: "nat \<Rightarrow> real"
  assumes "finite I" and "inj_on xs I" and "n < card I"
  shows "(\<Sum>i\<in>I. (\<Sum>d\<le>n. c d * xs i ^ d) * (\<Prod>j\<in>I - {i}. (- xs j) / (xs i - xs j))) = c 0"
proof -
  have "(\<Sum>d\<le>n. c d * (0::real) ^ d) = c 0"
    by (simp add: power_0_left if_distrib[of "\<lambda>v. _ * v"] sum.delta' cong: if_cong)
  with lagrange_exact[OF assms, of c 0] show ?thesis by simp
qed

lemma normalizeFrac_ok:
  assumes "den \<noteq> 0"
  obtains f where "normalizeFrac num den = Inr f" and "snd f \<noteq> 0"
    and "frac_val f = real_of_int num / real_of_int den"
proof -
  from normalizeFrac_total[OF assms] obtain f where f: "normalizeFrac num den = Inr f" by blast
  from that[OF f normalizeFrac_snd[OF f] normalizeFrac_val[OF f]] show ?thesis .
qed

lemma mulFrac_ok:
  assumes "snd a \<noteq> 0" and "snd b \<noteq> 0"
  obtains f where "mulFrac a b = Inr f" and "snd f \<noteq> 0" and "frac_val f = frac_val a * frac_val b"
proof -
  from assms have "snd a * snd b \<noteq> 0" by simp
  from normalizeFrac_ok[OF this, of "fst a * fst b"] obtain f
    where f: "normalizeFrac (fst a * fst b) (snd a * snd b) = Inr f" "snd f \<noteq> 0"
      "frac_val f = real_of_int (fst a * fst b) / real_of_int (snd a * snd b)"
    by blast
  have "mulFrac a b = Inr f" using f(1) by (cases a; cases b) (simp add: mulFrac_def)
  moreover have "frac_val f = frac_val a * frac_val b"
    unfolding f(3) by (simp add: frac_val_def)
  ultimately show ?thesis using f(2) that by blast
qed

lemma addFrac_ok:
  assumes "snd a \<noteq> 0" and "snd b \<noteq> 0"
  obtains f where "addFrac a b = Inr f" and "snd f \<noteq> 0" and "frac_val f = frac_val a + frac_val b"
proof -
  from assms have "snd a * snd b \<noteq> 0" by simp
  from normalizeFrac_ok[OF this, of "fst a * snd b + fst b * snd a"] obtain f
    where f: "normalizeFrac (fst a * snd b + fst b * snd a) (snd a * snd b) = Inr f" "snd f \<noteq> 0"
      "frac_val f = real_of_int (fst a * snd b + fst b * snd a) / real_of_int (snd a * snd b)"
    by blast
  have "addFrac a b = Inr f" using f(1) by (cases a; cases b) (simp add: addFrac_def)
  moreover have "frac_val f = frac_val a + frac_val b"
    unfolding f(3) using assms by (simp add: frac_val_def add_frac_eq)
  ultimately show ?thesis using f(2) that by blast
qed

lemma inner_loop_val:
  assumes d: "distinct (map x pts)" and i: "i < length pts"
  shows "j \<le> length pts \<Longrightarrow> snd li \<noteq> 0 \<Longrightarrow>
     \<exists>f. inner_loop (map Some pts) i (x (pts ! i)) j li = Inr f \<and> snd f \<noteq> 0
        \<and> frac_val f = frac_val li *
             (\<Prod>j'\<in>{j..<length pts} - {i}. (- xr pts j') / (xr pts i - xr pts j'))"
proof (induction "length pts - j" arbitrary: j li)
  case 0
  then have "j = length pts" by simp
  then show ?case using 0(3) by (subst inner_loop.simps) simp
next
  case (Suc n)
  then have jl: "j < length pts" by simp
  let ?F = "\<lambda>j'. (- xr pts j') / (xr pts i - xr pts j')"
  show ?case
  proof (cases "i = j")
    case True
    from Suc(2) jl have n: "n = length pts - (j + 1)" and le: "j + 1 \<le> length pts" by simp_all
    from Suc(1)[OF n le Suc(4)] obtain f
      where f: "inner_loop (map Some pts) i (x (pts ! i)) (j + 1) li = Inr f" "snd f \<noteq> 0"
        "frac_val f = frac_val li * (\<Prod>j'\<in>{j + 1..<length pts} - {i}. ?F j')"
      by blast
    have "{j..<length pts} - {i} = {j + 1..<length pts} - {i}" using True by auto
    with f True jl show ?thesis by (subst inner_loop.simps) simp
  next
    case False
    have ne: "x (pts ! i) \<noteq> x (pts ! j)"
      using d i jl False by (metis length_map nth_eq_iff_index_eq nth_map)
    then have "x (pts ! i) - x (pts ! j) \<noteq> 0" by simp
    from normalizeFrac_ok[OF this, of "- x (pts ! j)"] obtain f0
      where f0: "normalizeFrac (- x (pts ! j)) (x (pts ! i) - x (pts ! j)) = Inr f0" "snd f0 \<noteq> 0"
        "frac_val f0 = real_of_int (- x (pts ! j)) / real_of_int (x (pts ! i) - x (pts ! j))"
      by blast
    from mulFrac_ok[OF Suc(4) f0(2)] obtain li'
      where li': "mulFrac li f0 = Inr li'" "snd li' \<noteq> 0" "frac_val li' = frac_val li * frac_val f0"
      by blast
    from Suc(2) jl have n: "n = length pts - (j + 1)" and le: "j + 1 \<le> length pts" by simp_all
    from Suc(1)[OF n le li'(2)] obtain f
      where f: "inner_loop (map Some pts) i (x (pts ! i)) (j + 1) li' = Inr f" "snd f \<noteq> 0"
        "frac_val f = frac_val li' * (\<Prod>j'\<in>{j + 1..<length pts} - {i}. ?F j')"
      by blast
    have run: "inner_loop (map Some pts) i (x (pts ! i)) j li = Inr f"
      using jl False f0(1) li'(1) f(1)
      by (subst inner_loop.simps) (simp add: prop_x_def bindE_def Let_def)
    have set: "{j..<length pts} - {i} = insert j ({j + 1..<length pts} - {i})"
      using jl False by auto
    have "(\<Prod>j'\<in>{j..<length pts} - {i}. ?F j') = ?F j * (\<Prod>j'\<in>{j + 1..<length pts} - {i}. ?F j')"
      unfolding set by (rule prod.insert) simp_all
    moreover have "frac_val f0 = ?F j"
      by (simp add: f0(3) xr_def)
    ultimately have "frac_val f = frac_val li * (\<Prod>j'\<in>{j..<length pts} - {i}. ?F j')"
      by (simp add: f(3) li'(3))
    with run f(2) show ?thesis by blast
  qed
qed

lemma inner_loop_basis:
  assumes "distinct (map x pts)" and "i < length pts"
  obtains f where "inner_loop (map Some pts) i (x (pts ! i)) 0 (1, 1) = Inr f" and "snd f \<noteq> 0"
    and "frac_val f = basis0 pts i"
  using inner_loop_val[OF assms, of 0 "(1, 1)"] by (auto simp: frac_val_def basis0_def)

lemma outer_loop_val:
  assumes d: "distinct (map x pts)"
  shows "i \<le> length pts \<Longrightarrow> snd acc \<noteq> 0 \<Longrightarrow>
     \<exists>f. outer_loop (map Some pts) i acc = Inr f \<and> snd f \<noteq> 0
        \<and> frac_val f = frac_val acc + (\<Sum>i'\<in>{i..<length pts}. yr pts i' * basis0 pts i')"
proof (induction "length pts - i" arbitrary: i acc)
  case 0
  then have "i = length pts" by simp
  then show ?case using 0(3) by (subst outer_loop.simps) simp
next
  case (Suc n)
  then have il: "i < length pts" by simp
  from inner_loop_basis[OF d il] obtain li
    where li: "inner_loop (map Some pts) i (x (pts ! i)) 0 (1, 1) = Inr li" "snd li \<noteq> 0"
      "frac_val li = basis0 pts i"
    by blast
  have "snd (y (pts ! i), 1::int) \<noteq> 0" by simp
  from mulFrac_ok[OF this li(2)] obtain tm
    where tm: "mulFrac (y (pts ! i), 1) li = Inr tm" "snd tm \<noteq> 0"
      "frac_val tm = frac_val (y (pts ! i), 1) * frac_val li"
    by blast
  from addFrac_ok[OF Suc(4) tm(2)] obtain acc'
    where acc': "addFrac acc tm = Inr acc'" "snd acc' \<noteq> 0" "frac_val acc' = frac_val acc + frac_val tm"
    by blast
  from Suc(2) il have n: "n = length pts - (i + 1)" and le: "i + 1 \<le> length pts" by simp_all
  from Suc(1)[OF n le acc'(2)] obtain f
    where f: "outer_loop (map Some pts) (i + 1) acc' = Inr f" "snd f \<noteq> 0"
      "frac_val f = frac_val acc' + (\<Sum>i'\<in>{i + 1..<length pts}. yr pts i' * basis0 pts i')"
    by blast
  have run: "outer_loop (map Some pts) i acc = Inr f"
    using il li(1) tm(1) acc'(1) f(1)
    by (subst outer_loop.simps) (simp add: prop_x_def prop_y_def bindE_def)
  have "(\<Sum>i'\<in>{i..<length pts}. yr pts i' * basis0 pts i')
      = yr pts i * basis0 pts i + (\<Sum>i'\<in>{i + 1..<length pts}. yr pts i' * basis0 pts i')"
    using il by (simp add: sum.atLeast_Suc_lessThan)
  moreover have "frac_val tm = yr pts i * basis0 pts i"
    unfolding tm(3) li(3) by (simp add: frac_val_def yr_def)
  ultimately have "frac_val f = frac_val acc + (\<Sum>i'\<in>{i..<length pts}. yr pts i' * basis0 pts i')"
    by (simp add: f(3) acc'(3))
  with run f(2) show ?case by blast
qed

lemma smod_zero_iff: "(num::int) smod den = 0 \<longleftrightarrow> den dvd num"
proof -
  have "num smod den = 0 \<longleftrightarrow> \<bar>num\<bar> mod \<bar>den\<bar> = 0"
    by (auto simp: signed_modulo_int_def sgn_if)
  also have "\<dots> \<longleftrightarrow> \<bar>den\<bar> dvd \<bar>num\<bar>"
    by (simp add: dvd_eq_mod_eq_0)
  finally show ?thesis by simp
qed

lemma interpolate_char:
  assumes d: "distinct (map x pts)"
  shows "interpolateAtZero (map Some pts) = Inr v \<longleftrightarrow> lagrange0 pts = real_of_int v"
proof -
  from outer_loop_val[OF d, of 0 "(0, 1)"] obtain s
    where s: "outer_loop (map Some pts) 0 (0, 1) = Inr s" "snd s \<noteq> 0" "frac_val s = lagrange0 pts"
    by (auto simp: frac_val_def lagrange0_def)
  from normalizeFrac_ok[OF s(2), of "fst s"] obtain f
    where f: "normalizeFrac (fst s) (snd s) = Inr f" "snd f \<noteq> 0"
      "frac_val f = real_of_int (fst s) / real_of_int (snd s)"
    by blast
  obtain num den where nd: "f = (num, den)" by (cases f)
  from normalizeFrac_normal[OF f(1)] have pos: "den > 0" by (simp add: normal_frac_def nd)
  have val: "real_of_int num / real_of_int den = lagrange0 pts"
    using f(3) s(3) by (simp add: frac_val_def nd)
  have run: "interpolateAtZero (map Some pts) =
      (if num smod den \<noteq> 0 then Inl (NonInteger num den) else Inr (num sdiv den))"
    using pos by (simp add: interpolateAtZero_def s(1) f(1) nd bindE_def bigRem_def bigDiv_def)
  have "(den dvd num \<and> v = num div den) \<longleftrightarrow> num = v * den"
    using pos by auto
  also have "\<dots> \<longleftrightarrow> real_of_int num = real_of_int v * real_of_int den"
    by (metis of_int_eq_iff of_int_mult)
  also have "\<dots> \<longleftrightarrow> real_of_int num / real_of_int den = real_of_int v"
    using pos by (simp add: field_simps)
  finally have "(den dvd num \<and> v = num div den) \<longleftrightarrow> lagrange0 pts = real_of_int v"
    by (simp add: val)
  then show ?thesis
    using pos by (auto simp: run smod_zero_iff sdiv_exact)
qed

lemma poly_at_zero: "cs \<noteq> [] \<Longrightarrow> poly_at cs 0 = cs ! 0"
proof -
  assume "cs \<noteq> []"
  then have "0 \<in> {..<length cs}" by simp
  then have "(\<Sum>d<length cs. cs ! d * (if d = 0 then 1 else 0)) = cs ! 0"
    by (simp add: if_distrib[of "\<lambda>v. _ * v"] sum.delta' cong: if_cong)
  then show ?thesis by (simp add: poly_at_def power_0_left)
qed

lemma lagrange0_on_polynomial:
  assumes ne: "pts \<noteq> []" and d: "distinct (map x pts)" and len: "length cs = length pts"
    and on: "\<forall>p\<in>set pts. y p = poly_at cs (x p)"
  shows "lagrange0 pts = real_of_int (cs ! 0)"
proof -
  let ?k = "length pts"
  let ?I = "{0..<?k}"
  let ?c = "\<lambda>d. real_of_int (cs ! d)"
  from ne have k: "?k - 1 < card ?I" by (cases pts) simp_all
  have inj: "inj_on (xr pts) ?I"
  proof (rule inj_onI)
    fix i j assume "i \<in> ?I" and "j \<in> ?I" and "xr pts i = xr pts j"
    then have "i < length (map x pts)" and "j < length (map x pts)"
      and "map x pts ! i = map x pts ! j"
      by (simp_all add: xr_def)
    with d show "i = j" by (simp only: nth_eq_iff_index_eq)
  qed
  have yv: "yr pts i = (\<Sum>d\<le>?k - 1. ?c d * xr pts i ^ d)" if "i \<in> ?I" for i
  proof -
    from that have "pts ! i \<in> set pts" by simp
    with on have "y (pts ! i) = (\<Sum>d<length cs. cs ! d * x (pts ! i) ^ d)"
      by (simp add: poly_at_def)
    moreover have "{..<length cs} = {..?k - 1}" using ne len by (cases pts) auto
    ultimately show ?thesis by (simp add: yr_def xr_def)
  qed
  have "lagrange0 pts = (\<Sum>i\<in>?I. (\<Sum>d\<le>?k - 1. ?c d * xr pts i ^ d)
          * (\<Prod>j\<in>?I - {i}. (- xr pts j) / (xr pts i - xr pts j)))"
    unfolding lagrange0_def basis0_def by (rule sum.cong[OF refl]) (simp add: yv)
  also have "\<dots> = ?c 0"
    by (rule lagrange_exact_at_zero[OF _ inj k]) simp
  finally show ?thesis .
qed

lemma same_points_distinct:
  assumes "distinct (map x pts)" and "set pts' = set pts" and "length pts' = length pts"
  shows "distinct (map x pts')"
proof -
  have "card (set (map x pts')) = card (set (map x pts))" using assms(2) by simp
  also have "\<dots> = length (map x pts)" using assms(1) by (rule distinct_card)
  finally have "card (set (map x pts')) = length (map x pts')" using assms(3) by simp
  then show ?thesis by (rule card_distinct)
qed

text \<open>
  C1. For a non-empty list of points with pairwise distinct \<open>x\<close> that all lie on the
  polynomial with the integer coefficients \<open>cs\<close>, as many coefficients as points (degree
  at most \<open>k - 1\<close>), \<open>interpolateAtZero\<close> succeeds and returns the constant term, which is
  the polynomial's value at 0; and so it does on the same points listed in any other order.
\<close>

theorem interpolateAtZero_exact_any_order:
  assumes "points \<noteq> []" and "distinct (map x points)" and "length cs = length points"
    and "\<forall>p\<in>set points. y p = poly_at cs (x p)"
  shows "interpolateAtZero (map Some points) = Inr (cs ! 0)
         \<and> cs ! 0 = poly_at cs 0
         \<and> (\<forall>points'. set points' = set points \<and> length points' = length points \<longrightarrow>
               interpolateAtZero (map Some points') = Inr (cs ! 0))"
proof -
  have exact: "interpolateAtZero (map Some pts) = Inr (cs ! 0)"
    if "set pts = set points" and "length pts = length points" for pts
  proof -
    from that assms(1) have ne: "pts \<noteq> []" by auto
    from assms(2) that have d: "distinct (map x pts)" by (rule same_points_distinct)
    from assms(3,4) that have "length cs = length pts" and "\<forall>p\<in>set pts. y p = poly_at cs (x p)"
      by simp_all
    with ne d have "lagrange0 pts = real_of_int (cs ! 0)" by (rule lagrange0_on_polynomial)
    then show ?thesis by (simp only: interpolate_char[OF d])
  qed
  have "cs \<noteq> []" using assms(1,3) by auto
  then have zero: "cs ! 0 = poly_at cs 0" by (simp add: poly_at_zero)
  from exact[OF refl refl] zero exact show ?thesis by blast
qed

theorem interpolateAtZero_exact_any_order_witness:
  "interpolateAtZero (map Some [\<lparr>x = 1, y = 4, label = ''1''\<rparr>, \<lparr>x = 2, y = 7, label = ''2''\<rparr>,
       \<lparr>x = 3, y = 12, label = ''3''\<rparr>]) = Inr 3
   \<and> interpolateAtZero (map Some [\<lparr>x = 3, y = 12, label = ''3''\<rparr>, \<lparr>x = 1, y = 4, label = ''1''\<rparr>,
       \<lparr>x = 2, y = 7, label = ''2''\<rparr>]) = Inr 3
   \<and> poly_at [3, 0, 1] 0 = 3"
proof -
  let ?points = "[\<lparr>x = 1, y = 4, label = ''1''\<rparr>, \<lparr>x = 2, y = 7, label = ''2''\<rparr>,
       \<lparr>x = 3, y = 12, label = ''3''\<rparr>]"
  let ?points' = "[\<lparr>x = 3, y = 12, label = ''3''\<rparr>, \<lparr>x = 1, y = 4, label = ''1''\<rparr>,
       \<lparr>x = 2, y = 7, label = ''2''\<rparr>]"
  have on: "\<forall>p\<in>set ?points. y p = poly_at [3, 0, 1] (x p)"
    by (simp add: poly_at_def lessThan_Suc eval_nat_numeral)
  have same: "set ?points' = set ?points \<and> length ?points' = length ?points"
    by auto
  have t: "interpolateAtZero (map Some ?points) = Inr ([3, 0, 1] ! 0)
         \<and> [3, 0, 1] ! 0 = poly_at [3, 0, 1] 0
         \<and> (\<forall>points'. set points' = set ?points \<and> length points' = length ?points \<longrightarrow>
               interpolateAtZero (map Some points') = Inr ([3, 0, 1] ! 0))"
    by (rule interpolateAtZero_exact_any_order[OF _ _ _ on]) simp_all
  with same have "interpolateAtZero (map Some ?points') = Inr ([3, 0, 1] ! 0)"
    by blast
  with t show ?thesis by simp
qed

section \<open>The generator on its domain\<close>

lemma scan_spec:
  assumes "- 1 \<le> i"
  shows "- 1 \<le> scan idx l k i \<and> scan idx l k i \<le> i
     \<and> (0 \<le> scan idx l k i \<longrightarrow> int (idx ! nat (scan idx l k i)) \<noteq> l - (int k - 1 - scan idx l k i))
     \<and> (\<forall>j. scan idx l k i < j \<and> j \<le> i \<longrightarrow> int (idx ! nat j) = l - (int k - 1 - j))"
  using assms
proof (induction idx l k i rule: scan.induct)
  case (1 idx l k i)
  show ?case
  proof (cases "0 \<le> i \<and> int (idx ! nat i) = l - (int k - 1 - i)")
    case True
    then have s: "scan idx l k i = scan idx l k (i - 1)" by (simp add: scan_step)
    from True have "- 1 \<le> i - 1" by simp
    from 1(1)[OF True this] have IH: "- 1 \<le> scan idx l k (i - 1)" "scan idx l k (i - 1) \<le> i - 1"
      "0 \<le> scan idx l k (i - 1) \<longrightarrow>
         int (idx ! nat (scan idx l k (i - 1))) \<noteq> l - (int k - 1 - scan idx l k (i - 1))"
      "\<forall>j. scan idx l k (i - 1) < j \<and> j \<le> i - 1 \<longrightarrow> int (idx ! nat j) = l - (int k - 1 - j)"
      by blast+
    have "int (idx ! nat j) = l - (int k - 1 - j)" if "scan idx l k (i - 1) < j" "j \<le> i" for j
    proof (cases "j = i")
      case True
      with \<open>0 \<le> i \<and> int (idx ! nat i) = l - (int k - 1 - i)\<close> show ?thesis by simp
    next
      case False
      with that IH(4) show ?thesis by simp
    qed
    with IH show ?thesis unfolding s by auto
  next
    case False
    then have s: "scan idx l k i = i" by (rule scan_stop)
    from False 1(2) show ?thesis unfolding s by auto
  qed
qed

lemma refill_spec:
  assumes "length idx = k" and "1 \<le> j" and "j \<le> k"
  shows "length (refill idx k j) = k
     \<and> (\<forall>p<k. refill idx k j ! p = (if p < j then idx ! p else idx ! (j - 1) + (p - j + 1)))"
  using assms
proof (induction "k - j" arbitrary: idx j)
  case 0
  then have "refill idx k j = idx" by (simp add: refill_done)
  with 0 show ?case by simp
next
  case (Suc n)
  then have jk: "j < k" by simp
  let ?idx' = "idx[j := idx ! (j - 1) + 1]"
  have r: "refill idx k j = refill ?idx' k (j + 1)"
    using jk by (subst refill.simps) simp
  have "n = k - (j + 1)" "length ?idx' = k" "1 \<le> j + 1" "j + 1 \<le> k"
    using Suc(2,3) jk by simp_all
  from Suc(1)[OF this] have IH: "length (refill ?idx' k (j + 1)) = k"
    "\<forall>p<k. refill ?idx' k (j + 1) ! p
        = (if p < j + 1 then ?idx' ! p else ?idx' ! (j + 1 - 1) + (p - (j + 1) + 1))"
    by blast+
  have "refill ?idx' k (j + 1) ! p = (if p < j then idx ! p else idx ! (j - 1) + (p - j + 1))"
    if "p < k" for p
  proof -
    consider "p < j" | "p = j" | "j < p" by linarith
    then show ?thesis
    proof cases
      case 1
      with that IH(2) show ?thesis by simp
    next
      case 2
      with that IH(2) Suc(3) jk show ?thesis by simp
    next
      case 3
      with that IH(2) Suc(3) jk show ?thesis by simp
    qed
  qed
  with IH(1) show ?case unfolding r by simp
qed


lemma lex_less_nth:
  fixes a b :: "nat list"
  assumes "length a = k" and "length b = k"
  shows "a < b \<longleftrightarrow> (\<exists>i<k. (\<forall>p<i. a ! p = b ! p) \<and> a ! i < b ! i)"
proof -
  have t: "take i a = take i b \<longleftrightarrow> (\<forall>p<i. a ! p = b ! p)" if "i < k" for i
  proof
    assume e: "take i a = take i b"
    show "\<forall>p<i. a ! p = b ! p"
    proof (intro allI impI)
      fix p assume "p < i"
      then have "a ! p = take i a ! p" and "b ! p = take i b ! p" by simp_all
      with e show "a ! p = b ! p" by simp
    qed
  next
    assume "\<forall>p<i. a ! p = b ! p"
    then show "take i a = take i b"
      using that assms by (intro nth_take_lemma) simp_all
  qed
  have "a < b \<longleftrightarrow> (\<exists>i<k. take i a = take i b \<and> a ! i < b ! i)"
    using assms by (simp add: list_less_def lexord_take_index_conv)
  then show ?thesis using t by blast
qed

lemma increasing_gap:
  assumes "sorted_wrt (<) (c :: nat list)" and "i \<le> j" and "j < length c"
  shows "c ! i + (j - i) \<le> c ! j"
  using assms(2,3)
proof (induction "j - i" arbitrary: j)
  case 0
  then show ?case by simp
next
  case (Suc n)
  then obtain j' where j': "j = Suc j'" "i \<le> j'" "n = j' - i" by (cases j) auto
  with Suc have "c ! i + (j' - i) \<le> c ! j'" by simp
  moreover have "c ! j' < c ! j"
    using assms(1) Suc(4) j'(1) by (simp add: sorted_wrt_iff_nth_less)
  ultimately show ?case using j' by simp
qed

lemma increasing_within_upper:
  assumes "increasing_within m k c" and "i < k"
  shows "c ! i + (k - i) \<le> m"
proof -
  from assms have s: "sorted_wrt (<) c" and l: "length c = k" and b: "c ! (k - 1) < m"
    by (simp_all add: increasing_within_def)
  from increasing_gap[OF s, of i "k - 1"] assms(2) l have "c ! i + (k - 1 - i) \<le> c ! (k - 1)"
    by simp
  with b assms(2) show ?thesis by simp
qed

lemma increasing_within_lower:
  assumes "increasing_within m k c" and "i < k"
  shows "i \<le> c ! i"
proof -
  from assms have s: "sorted_wrt (<) c" and l: "length c = k"
    by (simp_all add: increasing_within_def)
  from increasing_gap[OF s, of 0 i] assms(2) l show ?thesis by simp
qed

lemma increasing_within_start: "k \<le> m \<Longrightarrow> increasing_within m k [0..<k]"
  by (auto simp: increasing_within_def sorted_wrt_iff_nth_less)

text \<open>What \<open>advance\<close> does to a strictly increasing sequence over \<open>0..m-1\<close>.\<close>

lemma advance_None_iff:
  assumes v: "increasing_within m k c"
  shows "advance (int m - 1) k c = None \<longleftrightarrow> (\<forall>j<k. c ! j + (k - j) = m)"
proof -
  let ?r = "scan c (int m - 1) k (int k - 1)"
  from scan_spec[of "int k - 1" c "int m - 1" k]
  have sp: "- 1 \<le> ?r" "?r \<le> int k - 1"
    "0 \<le> ?r \<longrightarrow> int (c ! nat ?r) \<noteq> int m - 1 - (int k - 1 - ?r)"
    "\<forall>j. ?r < j \<and> j \<le> int k - 1 \<longrightarrow> int (c ! nat j) = int m - 1 - (int k - 1 - j)"
    by simp_all
  have "advance (int m - 1) k c = None \<longleftrightarrow> ?r < 0"
    by (simp add: advance_def Let_def)
  also have "\<dots> \<longleftrightarrow> (\<forall>j<k. c ! j + (k - j) = m)"
  proof
    assume "?r < 0"
    show "\<forall>j<k. c ! j + (k - j) = m"
    proof (intro allI impI)
      fix j assume "j < k"
      with \<open>?r < 0\<close> sp(4) have "int (c ! nat (int j)) = int m - 1 - (int k - 1 - int j)"
        by (intro sp(4)[rule_format]) simp
      with \<open>j < k\<close> show "c ! j + (k - j) = m" by simp
    qed
  next
    assume a: "\<forall>j<k. c ! j + (k - j) = m"
    show "?r < 0"
    proof (rule ccontr)
      assume "\<not> ?r < 0"
      with sp have r: "0 \<le> ?r" "nat ?r < k" "int (c ! nat ?r) \<noteq> int m - 1 - (int k - 1 - ?r)"
        by simp_all
      obtain i where i: "?r = int i" using r(1) by (metis nat_0_le)
      from a r(2) have "c ! i + (k - i) = m" by (simp add: i)
      moreover from r(2,3) have "i < k" and "int (c ! i) \<noteq> int m - 1 - (int k - 1 - int i)"
        by (simp_all add: i)
      ultimately show False by arith
    qed
  qed
  finally show ?thesis .
qed

lemma advance_Some:
  assumes v: "increasing_within m k c" and a: "advance (int m - 1) k c = Some c'"
  obtains i where "i < k" and "c ! i + (k - i) < m" and "\<forall>j. i < j \<and> j < k \<longrightarrow> c ! j + (k - j) = m"
    and "length c' = k" and "\<forall>p<k. c' ! p = (if p < i then c ! p else c ! i + 1 + (p - i))"
proof -
  let ?r = "scan c (int m - 1) k (int k - 1)"
  from scan_spec[of "int k - 1" c "int m - 1" k]
  have sp: "- 1 \<le> ?r" "?r \<le> int k - 1"
    "0 \<le> ?r \<longrightarrow> int (c ! nat ?r) \<noteq> int m - 1 - (int k - 1 - ?r)"
    "\<forall>j. ?r < j \<and> j \<le> int k - 1 \<longrightarrow> int (c ! nat j) = int m - 1 - (int k - 1 - j)"
    by simp_all
  from a have r0: "0 \<le> ?r" and c': "c' = refill (c[nat ?r := c ! nat ?r + 1]) k (nat ?r + 1)"
    by (auto simp: advance_def Let_def split: if_splits)
  let ?i = "nat ?r"
  from r0 sp(2) have ik: "?i < k" by simp
  from v have len: "length c = k" by (simp add: increasing_within_def)
  from sp(3) r0 have "int (c ! ?i) \<noteq> int m - 1 - (int k - 1 - int ?i)" by simp
  then have "c ! ?i + (k - ?i) \<noteq> m" using ik by arith
  with increasing_within_upper[OF v ik] have lt: "c ! ?i + (k - ?i) < m" by simp
  have maxed: "\<forall>j. ?i < j \<and> j < k \<longrightarrow> c ! j + (k - j) = m"
  proof (intro allI impI)
    fix j assume j: "?i < j \<and> j < k"
    with r0 have "?r < int j \<and> int j \<le> int k - 1" by linarith
    with sp(4) have "int (c ! nat (int j)) = int m - 1 - (int k - 1 - int j)" by blast
    with j show "c ! j + (k - j) = m" by simp
  qed
  from refill_spec[of "c[?i := c ! ?i + 1]" k "?i + 1"] len ik
  have rl: "length c' = k"
    and rn: "\<forall>p<k. c' ! p = (if p < ?i + 1 then c[?i := c ! ?i + 1] ! p
                              else c[?i := c ! ?i + 1] ! (?i + 1 - 1) + (p - (?i + 1) + 1))"
    unfolding c' by simp_all
  have nth: "\<forall>p<k. c' ! p = (if p < ?i then c ! p else c ! ?i + 1 + (p - ?i))"
  proof (intro allI impI)
    fix p assume p: "p < k"
    consider "p < ?i" | "p = ?i" | "?i < p" by linarith
    then show "c' ! p = (if p < ?i then c ! p else c ! ?i + 1 + (p - ?i))"
    proof cases
      case 1
      with rn p len show ?thesis by simp
    next
      case 2
      with rn p len ik show ?thesis by simp
    next
      case 3
      with rn p len ik show ?thesis by simp
    qed
  qed
  from that[OF ik lt maxed rl nth] show ?thesis .
qed

lemma pointwise_le_lex:
  fixes a b :: "nat list"
  assumes "length a = k" and "length b = k" and "\<forall>p<k. a ! p \<le> b ! p"
  shows "a \<le> b"
proof (rule ccontr)
  assume "\<not> a \<le> b"
  then have "b < a" by simp
  with lex_less_nth[OF assms(2,1)] obtain i where "i < k" and "b ! i < a ! i" by blast
  with assms(3) show False by (simp add: leD)
qed

lemma advance_increasing:
  assumes v: "increasing_within m k c" and a: "advance (int m - 1) k c = Some c'"
  shows "increasing_within m k c'"
proof -
  obtain i where i: "i < k" "c ! i + (k - i) < m"
    and maxed: "\<forall>j. i < j \<and> j < k \<longrightarrow> c ! j + (k - j) = m"
    and len: "length c' = k"
    and nth: "\<forall>p<k. c' ! p = (if p < i then c ! p else c ! i + 1 + (p - i))"
    by (rule advance_Some[OF v a])
  from v have cl: "length c = k" and cs: "sorted_wrt (<) c" and cb: "\<forall>j\<in>set c. j < m"
    by (simp_all add: increasing_within_def)
  have cinc: "c ! p < c ! q" if "p < q" "q < k" for p q
    using cs cl that by (simp only: sorted_wrt_iff_nth_less)
  have inc: "c' ! p < c' ! q" if "p < q" "q < k" for p q
  proof -
    from that have pk: "p < k" by simp
    from nth pk have np: "c' ! p = (if p < i then c ! p else c ! i + 1 + (p - i))" by blast
    from nth that(2) have nq: "c' ! q = (if q < i then c ! q else c ! i + 1 + (q - i))" by blast
    consider "q < i" | "p < i" "i \<le> q" | "i \<le> p" by linarith
    then show ?thesis
    proof cases
      case 1
      with that have "p < i" by simp
      with 1 cinc[OF that] show ?thesis unfolding np nq by simp
    next
      case 2
      from cinc[OF 2(1) i(1)] 2 show ?thesis unfolding np nq by simp
    next
      case 3
      with that show ?thesis unfolding np nq by simp
    qed
  qed
  have bound: "c' ! p < m" if "p < k" for p
  proof -
    from nth that have np: "c' ! p = (if p < i then c ! p else c ! i + 1 + (p - i))" by blast
    show ?thesis
    proof (cases "p < i")
      case True
      from that cl have "c ! p \<in> set c" by simp
      with cb have "c ! p < m" by blast
      with True show ?thesis unfolding np by simp
    next
      case False
      with that i show ?thesis unfolding np by simp
    qed
  qed
  have "sorted_wrt (<) c'" using inc len by (simp only: sorted_wrt_iff_nth_less) blast
  moreover have "\<forall>j\<in>set c'. j < m" using bound len by (auto simp: in_set_conv_nth)
  ultimately show ?thesis using len by (simp add: increasing_within_def)
qed

lemma advance_less:
  assumes v: "increasing_within m k c" and a: "advance (int m - 1) k c = Some c'"
  shows "c < c'"
proof -
  obtain i where i: "i < k" "c ! i + (k - i) < m"
    and maxed: "\<forall>j. i < j \<and> j < k \<longrightarrow> c ! j + (k - j) = m"
    and len: "length c' = k"
    and nth: "\<forall>p<k. c' ! p = (if p < i then c ! p else c ! i + 1 + (p - i))"
    by (rule advance_Some[OF v a])
  from v have cl: "length c = k" by (simp add: increasing_within_def)
  have "(\<forall>p<i. c ! p = c' ! p) \<and> c ! i < c' ! i" using nth i by simp
  with i lex_less_nth[OF cl len] show ?thesis by blast
qed

lemma advance_least:
  assumes v: "increasing_within m k c" and a: "advance (int m - 1) k c = Some c'"
    and w: "increasing_within m k d" and lt: "c < d"
  shows "c' \<le> d"
proof -
  obtain i where i: "i < k" "c ! i + (k - i) < m"
    and maxed: "\<forall>j. i < j \<and> j < k \<longrightarrow> c ! j + (k - j) = m"
    and len: "length c' = k"
    and nth: "\<forall>p<k. c' ! p = (if p < i then c ! p else c ! i + 1 + (p - i))"
    by (rule advance_Some[OF v a])
  from v have cl: "length c = k" by (simp add: increasing_within_def)
  from w have dl: "length d = k" and ds: "sorted_wrt (<) d" by (simp_all add: increasing_within_def)
  from lt lex_less_nth[OF cl dl] obtain p where p: "p < k" "\<forall>q<p. c ! q = d ! q" "c ! p < d ! p"
    by blast
  have "\<not> i < p"
  proof
    assume "i < p"
    with maxed p(1) have "c ! p + (k - p) = m" by simp
    moreover from increasing_within_upper[OF w p(1)] have "d ! p + (k - p) \<le> m" .
    ultimately show False using p(3) by simp
  qed
  then consider "p < i" | "p = i" by linarith
  then show ?thesis
  proof cases
    case 1
    with p nth have "(\<forall>q<p. c' ! q = d ! q) \<and> c' ! p < d ! p" by simp
    with p(1) lex_less_nth[OF len dl] have "c' < d" by blast
    then show ?thesis by simp
  next
    case 2
    have "c' ! q \<le> d ! q" if "q < k" for q
    proof (cases "q < i")
      case True
      with that nth p(2) 2 show ?thesis by simp
    next
      case False
      then have "i \<le> q" by simp
      from increasing_gap[OF ds this] that dl have "d ! i + (q - i) \<le> d ! q" by simp
      with False that nth p(3) 2 show ?thesis by simp
    qed
    with len dl show ?thesis by (intro pointwise_le_lex[of _ k]) simp_all
  qed
qed

lemma advance_None_greatest:
  assumes v: "increasing_within m k c" and a: "advance (int m - 1) k c = None"
    and w: "increasing_within m k d"
  shows "d \<le> c"
proof -
  from v w have cl: "length c = k" and dl: "length d = k" by (simp_all add: increasing_within_def)
  have "d ! p \<le> c ! p" if "p < k" for p
  proof -
    from a advance_None_iff[OF v] that have "c ! p + (k - p) = m" by simp
    with increasing_within_upper[OF w that] show ?thesis by simp
  qed
  with dl cl show ?thesis by (intro pointwise_le_lex[of _ k]) simp_all
qed

lemma start_least:
  assumes w: "increasing_within m k d"
  shows "[0..<k] \<le> d"
proof -
  from w have dl: "length d = k" by (simp add: increasing_within_def)
  have "[0..<k] ! p \<le> d ! p" if "p < k" for p
    using increasing_within_lower[OF w that] that by simp
  with dl show ?thesis by (intro pointwise_le_lex[of _ k]) simp_all
qed

lemma finite_increasing_within: "finite {c. increasing_within m k c}"
proof -
  have "{c. increasing_within m k c} \<subseteq> {c. set c \<subseteq> {0..<m} \<and> length c = k}"
    by (auto simp: increasing_within_def)
  then show ?thesis using finite_lists_length_eq[of "{0..<m}" k] by (rule finite_subset) simp
qed

lemma generate_enumerates:
  assumes v: "increasing_within m k c"
  shows "\<exists>rest. generate (int m - 1) k c = Some rest \<and> sorted_wrt (<) (c # rest)
           \<and> set (c # rest) = {d. increasing_within m k d \<and> c \<le> d}"
  using v
proof (induction "card {d. increasing_within m k d \<and> c < d}" arbitrary: c rule: less_induct)
  case less
  let ?V = "{d. increasing_within m k d}"
  show ?case
  proof (cases "advance (int m - 1) k c")
    case None
    then have g: "generate (int m - 1) k c = Some []"
      by (subst generate.simps) simp
    have "{d. increasing_within m k d \<and> c \<le> d} = {c}"
      using advance_None_greatest[OF less(2) None] less(2) by (auto intro: order_antisym)
    with g show ?thesis by simp
  next
    case (Some c')
    have v': "increasing_within m k c'" by (rule advance_increasing[OF less(2) Some])
    have lt: "c < c'" by (rule advance_less[OF less(2) Some])
    have "{d. increasing_within m k d \<and> c' < d} \<subset> {d. increasing_within m k d \<and> c < d}"
      using v' lt by auto
    moreover have "finite {d. increasing_within m k d \<and> c < d}"
      using finite_increasing_within[of m k] by simp
    ultimately have "card {d. increasing_within m k d \<and> c' < d} < card {d. increasing_within m k d \<and> c < d}"
      by (rule psubset_card_mono[rotated])
    from less(1)[OF this v'] obtain rest where rest: "generate (int m - 1) k c' = Some rest"
      "sorted_wrt (<) (c' # rest)" "set (c' # rest) = {d. increasing_within m k d \<and> c' \<le> d}"
      by blast
    have g: "generate (int m - 1) k c = Some (c' # rest)"
      using Some rest(1) by (subst generate.simps) simp
    have "set (c # c' # rest) = {d. increasing_within m k d \<and> c \<le> d}"
    proof -
      have "{d. increasing_within m k d \<and> c \<le> d} = insert c {d. increasing_within m k d \<and> c' \<le> d}"
      proof (intro set_eqI iffI)
        fix d assume "d \<in> {d. increasing_within m k d \<and> c \<le> d}"
        then have d: "increasing_within m k d" "c \<le> d" by simp_all
        show "d \<in> insert c {d. increasing_within m k d \<and> c' \<le> d}"
        proof (cases "d = c")
          case True
          then show ?thesis by simp
        next
          case False
          with d(2) have "c < d" by simp
          from advance_least[OF less(2) Some d(1) this] d(1) show ?thesis by simp
        qed
      next
        fix d assume "d \<in> insert c {d. increasing_within m k d \<and> c' \<le> d}"
        then have "d = c \<or> (increasing_within m k d \<and> c' \<le> d)" by simp
        then show "d \<in> {d. increasing_within m k d \<and> c \<le> d}"
        proof
          assume "d = c"
          with less(2) show ?thesis by simp
        next
          assume a: "increasing_within m k d \<and> c' \<le> d"
          then have "c' \<le> d" by simp
          with lt have "c < d" by (rule less_le_trans)
          then have "c \<le> d" by (rule less_imp_le)
          with a show ?thesis by simp
        qed
      qed
      with rest(3) show ?thesis by simp
    qed
    moreover have "sorted_wrt (<) (c # c' # rest)"
    proof -
      have "c < e" if "e \<in> set (c' # rest)" for e
      proof -
        from that rest(3) have "c' \<le> e" by blast
        with lt show ?thesis by simp
      qed
      with rest(2) show ?thesis by simp
    qed
    ultimately show ?thesis using g by blast
  qed
qed

lemma combinations_enumerates:
  assumes "k \<le> m"
  shows "\<exists>combos. combinations (int m) k = Some combos \<and> sorted_wrt (<) combos
           \<and> set combos = {c. increasing_within m k c}"
proof -
  from generate_enumerates[OF increasing_within_start[OF assms]] obtain rest
    where rest: "generate (int m - 1) k [0..<k] = Some rest" "sorted_wrt (<) ([0..<k] # rest)"
      "set ([0..<k] # rest) = {d. increasing_within m k d \<and> [0..<k] \<le> d}"
    by blast
  have "{d. increasing_within m k d \<and> [0..<k] \<le> d} = {c. increasing_within m k c}"
    using start_least by blast
  with rest show ?thesis by (simp add: combinations_def)
qed

section \<open>Lagrange values of index sets with one point off the polynomial\<close>

lemma lagrange_at0_good:
  assumes "finite I" and "inj_on X I" and "n < card I"
    and "\<forall>a\<in>I. Y a = (\<Sum>d\<le>n. c d * X a ^ d)"
  shows "lagrange_at0 I X Y = c 0"
proof -
  have "lagrange_at0 I X Y
      = (\<Sum>a\<in>I. (\<Sum>d\<le>n. c d * X a ^ d) * (\<Prod>a'\<in>I - {a}. (- X a') / (X a - X a')))"
    unfolding lagrange_at0_def basis_at0_def using assms(4) by (intro sum.cong) simp_all
  also have "\<dots> = c 0" by (rule lagrange_exact_at_zero[OF assms(1-3)])
  finally show ?thesis .
qed

lemma lagrange_at0_one_bad:
  assumes fin: "finite I" and inj: "inj_on X I" and deg: "n < card I" and b: "b \<in> I"
    and good: "\<forall>a\<in>I - {b}. Y a = (\<Sum>d\<le>n. c d * X a ^ d)"
  shows "lagrange_at0 I X Y = c 0 + (Y b - (\<Sum>d\<le>n. c d * X b ^ d)) * basis_at0 I X b"
proof -
  let ?P = "\<lambda>a. \<Sum>d\<le>n. c d * X a ^ d"
  let ?delta = "Y b - ?P b"
  have "Y a * basis_at0 I X a = ?P a * basis_at0 I X a + (if a = b then ?delta * basis_at0 I X b else 0)"
    if "a \<in> I" for a
    using that good by (cases "a = b") (simp_all add: algebra_simps)
  then have "lagrange_at0 I X Y
      = (\<Sum>a\<in>I. ?P a * basis_at0 I X a + (if a = b then ?delta * basis_at0 I X b else 0))"
    unfolding lagrange_at0_def by (intro sum.cong) simp_all
  also have "\<dots> = (\<Sum>a\<in>I. ?P a * basis_at0 I X a) + (\<Sum>a\<in>I. if a = b then ?delta * basis_at0 I X b else 0)"
    by (rule sum.distrib)
  also have "(\<Sum>a\<in>I. ?P a * basis_at0 I X a) = c 0"
    using lagrange_at0_good[OF fin inj deg, of ?P c] by (simp add: lagrange_at0_def)
  also have "(\<Sum>a\<in>I. if a = b then ?delta * basis_at0 I X b else 0) = ?delta * basis_at0 I X b"
    using fin b by (simp add: sum.delta)
  finally show ?thesis .
qed

lemma basis_at0_nonzero:
  assumes "finite I" and "inj_on X I" and "b \<in> I" and "\<forall>a\<in>I - {b}. X a \<noteq> 0"
  shows "basis_at0 I X b \<noteq> 0"
proof -
  have "(- X a') / (X b - X a') \<noteq> 0" if "a' \<in> I - {b}" for a'
  proof -
    from that assms(2,3) have "X b \<noteq> X a'" by (auto simp: inj_on_def)
    with that assms(4) show ?thesis by simp
  qed
  then show ?thesis
    unfolding basis_at0_def using assms(1) by (simp add: prod_zero_iff)
qed

lemma basis_at0_insert:
  assumes "finite C" and "a \<notin> C" and "b \<in> C"
  shows "basis_at0 (insert a C) X b = (- X a) / (X b - X a) * basis_at0 C X b"
proof -
  from assms have "insert a C - {b} = insert a (C - {b})" and "a \<notin> C - {b}" and "finite (C - {b})"
    by auto
  then show ?thesis unfolding basis_at0_def by simp
qed

text \<open>Two index sets that hold the bad point and differ in one other point cannot have
  the same value at 0.\<close>

lemma one_bad_differ:
  assumes fin: "finite C" and b: "b \<in> C" and a: "a \<notin> C" "a' \<notin> C" "a \<noteq> a'"
    and inj: "inj_on X (insert a (insert a' C))"
    and nz: "\<forall>i\<in>insert a (insert a' C). X i \<noteq> 0"
    and deg: "n < card (insert a C)"
    and good: "\<forall>i\<in>insert a (insert a' C) - {b}. Y i = (\<Sum>d\<le>n. c d * X i ^ d)"
    and bad: "Y b \<noteq> (\<Sum>d\<le>n. c d * X b ^ d)"
  shows "lagrange_at0 (insert a C) X Y \<noteq> lagrange_at0 (insert a' C) X Y"
proof
  assume eq: "lagrange_at0 (insert a C) X Y = lagrange_at0 (insert a' C) X Y"
  let ?delta = "Y b - (\<Sum>d\<le>n. c d * X b ^ d)"
  from bad have d0: "?delta \<noteq> 0" by simp
  have injC: "inj_on X C" and inja: "inj_on X (insert a C)" and inja': "inj_on X (insert a' C)"
    using inj by (auto simp: inj_on_def)
  have ca: "card (insert a' C) = card (insert a C)" using fin a by simp
  have va: "lagrange_at0 (insert a C) X Y = c 0 + ?delta * basis_at0 (insert a C) X b"
    using fin b good by (intro lagrange_at0_one_bad[OF _ inja deg]) auto
  have va': "lagrange_at0 (insert a' C) X Y = c 0 + ?delta * basis_at0 (insert a' C) X b"
    using fin b good deg ca by (intro lagrange_at0_one_bad[OF _ inja']) auto
  from eq va va' d0 have "basis_at0 (insert a C) X b = basis_at0 (insert a' C) X b" by simp
  then have "(- X a) / (X b - X a) * basis_at0 C X b = (- X a') / (X b - X a') * basis_at0 C X b"
    using fin a b by (simp add: basis_at0_insert)
  moreover have "basis_at0 C X b \<noteq> 0"
    using fin injC b nz by (intro basis_at0_nonzero) auto
  ultimately have f: "(- X a) / (X b - X a) = (- X a') / (X b - X a')"
    using mult_right_cancel[of "basis_at0 C X b"] by blast
  have ne: "X b - X a \<noteq> 0" "X b - X a' \<noteq> 0"
    using inj a b by (auto simp: inj_on_def)
  from f ne have "(- X a) * (X b - X a') = (- X a') * (X b - X a)"
    by (simp add: frac_eq_eq)
  then have "X b * (X a - X a') = 0" by (auto simp: algebra_simps)
  moreover have "X b \<noteq> 0" using nz b by simp
  ultimately have "X a = X a'" by simp
  with inj a(3) show False by (auto simp: inj_on_def)
qed

section \<open>Subsets of the decoded points\<close>

lemma increasing_within_distinct: "increasing_within m k c \<Longrightarrow> distinct c"
  by (simp add: increasing_within_def strict_sorted_iff)

lemma subset_of_in_range:
  assumes "\<forall>i\<in>set combo. i < length points"
  shows "subset_of points combo = map Some (map ((!) points) combo)"
  using assms by (simp add: subset_of_def)

lemma X_of_inj:
  assumes "distinct (map x points)"
  shows "inj_on (X_of points) {0..<length points}"
proof (rule inj_onI)
  fix i j assume "i \<in> {0..<length points}" and "j \<in> {0..<length points}"
    and "X_of points i = X_of points j"
  then have "i < length (map x points)" and "j < length (map x points)"
    and "map x points ! i = map x points ! j"
    by (simp_all add: X_of_def)
  with assms show "i = j" by (simp only: nth_eq_iff_index_eq)
qed

lemma sub_distinct_x:
  assumes d: "distinct (map x points)" and c: "distinct combo"
    and r: "\<forall>i\<in>set combo. i < length points"
  shows "distinct (map x (map ((!) points) combo))"
proof -
  have "inj_on (\<lambda>i. x (points ! i)) (set combo)"
  proof (rule inj_onI)
    fix i j assume "i \<in> set combo" and "j \<in> set combo" and "x (points ! i) = x (points ! j)"
    with r have "i < length (map x points)" and "j < length (map x points)"
      and "map x points ! i = map x points ! j"
      by simp_all
    with d show "i = j" by (simp only: nth_eq_iff_index_eq)
  qed
  with c show ?thesis by (simp add: distinct_map comp_def)
qed

lemma nth_image_minus:
  assumes "distinct c" and "i < length c"
  shows "(!) c ` ({0..<length c} - {i}) = set c - {c ! i}"
proof -
  have inj: "inj_on ((!) c) {0..<length c}"
    using assms(1) by (auto simp: inj_on_def nth_eq_iff_index_eq)
  have "(!) c ` ({0..<length c} - {i}) = (!) c ` {0..<length c} - (!) c ` {i}"
    using assms(2) by (intro inj_on_image_set_diff[OF inj]) auto
  also have "(!) c ` {0..<length c} = set c"
    by (auto simp: in_set_conv_nth)
  finally show ?thesis by simp
qed

lemma lagrange0_sub:
  assumes c: "distinct combo"
  shows "lagrange0 (map ((!) points) combo)
           = lagrange_at0 (set combo) (X_of points) (Y_of points)"
proof -
  let ?sub = "map ((!) points) combo"
  let ?K = "length combo"
  have inj: "inj_on ((!) combo) {0..<?K}"
    using c by (auto simp: inj_on_def nth_eq_iff_index_eq)
  have img: "(!) combo ` {0..<?K} = set combo"
    by (auto simp: in_set_conv_nth)
  have b: "basis0 ?sub i = basis_at0 (set combo) (X_of points) (combo ! i)" if "i < ?K" for i
  proof -
    have inj': "inj_on ((!) combo) ({0..<?K} - {i})"
      using inj by (rule inj_on_subset) auto
    have "basis_at0 (set combo) (X_of points) (combo ! i)
        = (\<Prod>a'\<in>(!) combo ` ({0..<?K} - {i}).
             (- X_of points a') / (X_of points (combo ! i) - X_of points a'))"
      unfolding basis_at0_def by (simp only: nth_image_minus[OF c that])
    also have "\<dots> = (\<Prod>j\<in>{0..<?K} - {i}.
             (- X_of points (combo ! j)) / (X_of points (combo ! i) - X_of points (combo ! j)))"
      by (simp only: prod.reindex[OF inj'] comp_def)
    also have "\<dots> = basis0 ?sub i"
      unfolding basis0_def using that
      by (intro prod.cong) (simp_all add: xr_def X_of_def)
    finally show ?thesis by simp
  qed
  have "lagrange_at0 (set combo) (X_of points) (Y_of points)
      = (\<Sum>a\<in>(!) combo ` {0..<?K}. Y_of points a * basis_at0 (set combo) (X_of points) a)"
    unfolding lagrange_at0_def by (simp only: img)
  also have "\<dots> = (\<Sum>i\<in>{0..<?K}. Y_of points (combo ! i)
                        * basis_at0 (set combo) (X_of points) (combo ! i))"
    by (simp only: sum.reindex[OF inj] comp_def)
  also have "\<dots> = lagrange0 ?sub"
    unfolding lagrange0_def
    by (intro sum.cong) (simp_all add: b yr_def Y_of_def)
  finally show ?thesis by simp
qed

lemma outcome_char:
  assumes d: "distinct (map x points)" and v: "increasing_within (length points) k combo"
  shows "outcome points combo = Some w \<longleftrightarrow>
           lagrange_at0 (set combo) (X_of points) (Y_of points) = real_of_int w"
proof -
  from v have r: "\<forall>i\<in>set combo. i < length points" by (simp add: increasing_within_def)
  have c: "distinct combo" by (rule increasing_within_distinct[OF v])
  have dx: "distinct (map x (map ((!) points) combo))" by (rule sub_distinct_x[OF d c r])
  have "outcome points combo = Some w \<longleftrightarrow> interpolateAtZero (subset_of points combo) = Inr w"
    by (simp add: outcome_def split: sum.splits)
  also have "\<dots> \<longleftrightarrow> lagrange0 (map ((!) points) combo) = real_of_int w"
    unfolding subset_of_in_range[OF r] by (rule interpolate_char[OF dx])
  finally show ?thesis by (simp only: lagrange0_sub[OF c])
qed

section \<open>Counting subsets\<close>

lemma two_subsets_in_one:
  fixes A A' T :: "nat set"
  assumes K: "card A = K" "card A' = K" "card T = K" and fin: "finite T"
    and b: "b \<in> A" "b \<in> A'" and sub: "A - {b} \<subseteq> T" "A' - {b} \<subseteq> T" and ne: "A \<noteq> A'"
  shows "\<exists>C a a'. a \<notin> C \<and> a' \<notin> C \<and> a \<noteq> a' \<and> b \<in> C \<and> finite C \<and> A = insert a C \<and> A' = insert a' C"
proof -
  let ?S = "A - {b}" and ?S' = "A' - {b}"
  have finS: "finite ?S" "finite ?S'"
    by (rule finite_subset[OF sub(1) fin], rule finite_subset[OF sub(2) fin])
  then have finA: "finite A" "finite A'" by simp_all
  have K0: "K > 0" using K(1) b(1) finA(1) by (metis card_gt_0_iff empty_iff)
  have cS: "card ?S = K - 1" "card ?S' = K - 1" using K b finA by simp_all
  have neS: "?S \<noteq> ?S'"
  proof
    assume "?S = ?S'"
    then have "insert b ?S = insert b ?S'" by simp
    with b have "A = A'" by (simp add: insert_absorb)
    with ne show False by simp
  qed
  have "\<not> ?S' \<subseteq> ?S"
  proof
    assume "?S' \<subseteq> ?S"
    with finS cS have "?S' = ?S" by (intro card_subset_eq) simp_all
    with neS show False by simp
  qed
  then obtain t where t: "t \<in> ?S'" "t \<notin> ?S" by blast
  have "\<not> ?S \<subseteq> ?S'"
  proof
    assume "?S \<subseteq> ?S'"
    with finS cS have "?S = ?S'" by (intro card_subset_eq) simp_all
    with neS show False by simp
  qed
  then obtain t' where t': "t' \<in> ?S" "t' \<notin> ?S'" by blast
  have T1: "T = insert t ?S"
  proof -
    have "insert t ?S \<subseteq> T" using t(1) sub by auto
    moreover have "card (insert t ?S) = card T" using finS t(2) cS K0 K(3) by simp
    ultimately show ?thesis using fin by (metis card_subset_eq)
  qed
  have T2: "T = insert t' ?S'"
  proof -
    have "insert t' ?S' \<subseteq> T" using t'(1) sub by auto
    moreover have "card (insert t' ?S') = card T" using finS t'(2) cS K0 K(3) by simp
    ultimately show ?thesis using fin by (metis card_subset_eq)
  qed
  let ?C = "insert b (T - {t, t'})"
  have tt: "t \<noteq> t'" using t t' by auto
  have tb: "t \<noteq> b" "t' \<noteq> b" using t(1) t'(1) by auto
  have S: "?S = insert t' (T - {t, t'})"
    using T1 t(2) t'(1) tt by auto
  have S': "?S' = insert t (T - {t, t'})"
    using T2 t'(2) t(1) tt by auto
  have "A = insert b ?S" using b(1) by auto
  then have A: "A = insert t' ?C" using S by auto
  have "A' = insert b ?S'" using b(2) by auto
  then have A': "A' = insert t ?C" using S' by auto
  have "t' \<notin> ?C" "t \<notin> ?C" "b \<in> ?C" "finite ?C" using tb fin by auto
  with A A' tt show ?thesis by (metis (no_types))
qed

lemma separated_family_smaller:
  fixes U :: "nat set"
  assumes finU: "finite U" and b: "b \<in> U" and big: "K + 2 \<le> card U"
    and FS: "FS \<subseteq> {A. A \<subseteq> U \<and> card A = K \<and> b \<in> A}"
    and sep: "\<And>A A' C a a'. A \<in> FS \<Longrightarrow> A' \<in> FS \<Longrightarrow> a \<notin> C \<Longrightarrow> a' \<notin> C \<Longrightarrow> a \<noteq> a' \<Longrightarrow>
                b \<in> C \<Longrightarrow> finite C \<Longrightarrow> A = insert a C \<Longrightarrow> A' = insert a' C \<Longrightarrow> False"
  shows "card FS < card {T. T \<subseteq> U - {b} \<and> card T = K}"
proof -
  let ?G = "U - {b}"
  let ?GS = "{T. T \<subseteq> ?G \<and> card T = K}"
  have finG: "finite ?G" using finU by simp
  have cG: "card ?G = card U - 1" using finU b by simp
  have finGS: "finite ?GS" using finG by simp
  have cGS: "card ?GS = card ?G choose K" using finG by (rule n_subsets)
  have GSpos: "card ?GS > 0" using cGS cG big by (simp add: zero_less_binomial_iff)
  show ?thesis
  proof (cases "FS = {}")
    case True
    with GSpos show ?thesis by simp
  next
    case False
    have memb: "finite A \<and> card A = K \<and> b \<in> A \<and> A \<subseteq> U" if "A \<in> FS" for A
      using that FS finU by (auto intro: finite_subset)
    have K0: "K > 0" using False memb by (metis card_gt_0_iff empty_iff ex_in_conv)
    have rest: "finite (?G - A) \<and> card (?G - A) \<ge> 2 \<and> ?G - A \<noteq> {}" if "A \<in> FS" for A
    proof -
      from memb[OF that] have A: "finite A" "card A = K" "b \<in> A" "A \<subseteq> U" by simp_all
      have "?G - A = U - A" using A(3) by auto
      moreover have "card (U - A) = card U - K" using A finU by (simp add: card_Diff_subset)
      ultimately have c2: "card (?G - A) \<ge> 2" using big by simp
      have "?G - A \<noteq> {}"
      proof
        assume "?G - A = {}"
        then have "card (?G - A) = 0" by (simp only: card.empty)
        with c2 show False by simp
      qed
      moreover have "finite (?G - A)" using finG by (rule finite_Diff)
      ultimately show ?thesis using c2 by blast
    qed
    have ext: "insert e (A - {b}) \<in> ?GS" if "A \<in> FS" "e \<in> ?G - A" for A e
    proof -
      from memb[OF that(1)] have A: "finite A" "card A = K" "b \<in> A" "A \<subseteq> U" by simp_all
      have "card (insert e (A - {b})) = K" using A that(2) K0 by simp
      moreover have "insert e (A - {b}) \<subseteq> ?G" using A that(2) by auto
      ultimately show ?thesis by simp
    qed
    have key: "A = A'"
      if "A \<in> FS" "A' \<in> FS" "A - {b} \<subseteq> T" "A' - {b} \<subseteq> T" "T \<in> ?GS" for A A' T
    proof (rule ccontr)
      assume ne: "A \<noteq> A'"
      from memb[OF that(1)] memb[OF that(2)] have c: "card A = K" "card A' = K" "b \<in> A" "b \<in> A'"
        by simp_all
      from that(5) finG have T: "card T = K" "finite T" by (auto intro: finite_subset)
      from two_subsets_in_one[OF c(1,2) T c(3,4) that(3,4) ne] obtain C a a'
        where "a \<notin> C" "a' \<notin> C" "a \<noteq> a'" "b \<in> C" "finite C" "A = insert a C" "A' = insert a' C"
        by blast
      from sep[OF that(1,2) this] show False .
    qed
    let ?psi = "\<lambda>A. insert (Min (?G - A)) (A - {b})"
    have psi: "?psi A \<in> ?GS" if "A \<in> FS" for A
    proof -
      from rest[OF that] have "Min (?G - A) \<in> ?G - A" by (intro Min_in) blast+
      then show ?thesis by (rule ext[OF that])
    qed
    have inj: "inj_on ?psi FS"
    proof (rule inj_onI)
      fix A A' assume A: "A \<in> FS" "A' \<in> FS" and eq: "?psi A = ?psi A'"
      have "A - {b} \<subseteq> ?psi A" by auto
      moreover have "A' - {b} \<subseteq> ?psi A" unfolding eq by auto
      ultimately show "A = A'" using psi[OF A(1)] by (intro key[OF A])
    qed
    from False obtain A0 where A0: "A0 \<in> FS" by blast
    let ?T0 = "insert (Max (?G - A0)) (A0 - {b})"
    from rest[OF A0] have D: "finite (?G - A0)" "card (?G - A0) \<ge> 2" "?G - A0 \<noteq> {}" by simp_all
    have "Max (?G - A0) \<in> ?G - A0" using D by (intro Max_in)
    then have T0: "?T0 \<in> ?GS" by (rule ext[OF A0])
    have "?T0 \<notin> ?psi ` FS"
    proof
      assume "?T0 \<in> ?psi ` FS"
      then obtain A where A: "A \<in> FS" "?T0 = ?psi A" by blast
      have "A - {b} \<subseteq> ?T0" unfolding A(2) by auto
      moreover have "A0 - {b} \<subseteq> ?T0" by auto
      ultimately have "A = A0" using T0 by (intro key[OF A(1) A0])
      with A(2) have e: "insert (Max (?G - A0)) (A0 - {b}) = insert (Min (?G - A0)) (A0 - {b})"
        by simp
      have "Max (?G - A0) \<in> ?G - A0" and "Min (?G - A0) \<in> ?G - A0"
        by (rule Max_in[OF D(1,3)], rule Min_in[OF D(1,3)])
      with e have mm: "Max (?G - A0) = Min (?G - A0)" by auto
      have "?G - A0 \<subseteq> {Min (?G - A0)}"
      proof
        fix d assume d: "d \<in> ?G - A0"
        with D(1) have "Min (?G - A0) \<le> d" "d \<le> Max (?G - A0)" by simp_all
        with mm show "d \<in> {Min (?G - A0)}" by simp
      qed
      then have "card (?G - A0) \<le> card {Min (?G - A0)}" by (intro card_mono) simp_all
      with D(2) show False by simp
    qed
    with T0 psi have "?psi ` FS \<subset> ?GS" by blast
    then have "card (?psi ` FS) < card ?GS" using finGS by (rule psubset_card_mono[rotated])
    then show ?thesis by (simp add: card_image[OF inj])
  qed
qed

section \<open>What the tally holds after the loop\<close>

lemma count_secrets:
  "count_list (secrets_of points combos) v = length (filter (\<lambda>c. outcome points c = Some v) combos)"
proof (induction combos)
  case Nil
  show ?case by (simp add: secrets_of_def map_filter_simps)
next
  case (Cons c combos)
  then show ?case
    by (cases "outcome points c") (simp_all add: secrets_of_def map_filter_simps)
qed

lemma secrets_set:
  "set (secrets_of points combos) = {v. \<exists>c\<in>set combos. outcome points c = Some v}"
proof (induction combos)
  case Nil
  show ?case by (simp add: secrets_of_def map_filter_simps)
next
  case (Cons c combos)
  then show ?case
    by (cases "outcome points c") (auto simp: secrets_of_def map_filter_simps)
qed

lemma fold_insert_union: "fold insert xs A = set xs \<union> A"
  by (induction xs arbitrary: A) auto

lemma okSet_tally_step:
  "okSet_of (tally_step points t combo) v =
     (if outcome points combo = Some v then set combo \<union> okSet_of t v else okSet_of t v)"
  by (auto simp: tally_step_def outcome_def okSet_of_def Let_def fold_insert_union dom_def
      split: sum.splits option.splits)

lemma okSet_foldl:
  "okSet_of (foldl (tally_step points) t combos) v
     = okSet_of t v \<union> \<Union> (set ` {c \<in> set combos. outcome points c = Some v})"
proof (induction combos arbitrary: t)
  case Nil
  show ?case by simp
next
  case (Cons c combos)
  show ?case by (auto simp: Cons.IH okSet_tally_step)
qed

lemma tally_nonempty: "vs \<noteq> [] \<Longrightarrow> foldl bump [] vs \<noteq> []"
proof -
  assume "vs \<noteq> []"
  then have "map fst (foldl bump [] vs) \<noteq> []" by (simp add: keys_tally)
  then show ?thesis by auto
qed

lemma pick_best_Some:
  assumes "entries \<noteq> []"
  shows "\<exists>w bc. pick_best entries None (- 1) = (Some w, bc)"
proof -
  obtain b' bc' where p: "pick_best entries None (- 1) = (b', bc')"
    by (cases "pick_best entries None (- 1)")
  from assms obtain e where "e \<in> set entries" by (cases entries) auto
  moreover have "\<not> int (snd e) \<le> - 1" by simp
  ultimately have "\<not> (\<forall>e\<in>set entries. int (snd e) \<le> - 1)" by blast
  with pick_best_spec[OF p] obtain k where "b' = Some k" by blast
  with p show ?thesis by blast
qed

text \<open>\<open>main\<close> once the generator has returned: the run is decided by the secrets of the
  subsets that interpolate.\<close>

lemma main_on_domain:
  assumes "2 \<le> k" and "k \<le> n"
    and "combinations (min (int (length points)) n) (nat k) = Some combos"
  shows "main n k points =
     (if secrets_of points combos = [] then Some (Inl NoValidSubset)
      else Some (Inr \<lparr>secret = the (fst (pick_best (foldl bump [] (secrets_of points combos)) None (- 1))),
             outliers = map (\<lambda>i. points ! i)
               (filter (\<lambda>i. i \<notin> okSet_of (foldl (tally_step points) empty_tally combos)
                   (the (fst (pick_best (foldl bump [] (secrets_of points combos)) None (- 1)))))
                 [0..<nat (min (int (length points)) n)])\<rparr>))"
proof -
  let ?t = "foldl (tally_step points) empty_tally combos"
  have fr: "cFreq ?t = foldl bump [] (secrets_of points combos)"
    by (simp add: cFreq_foldl empty_tally_def)
  show ?thesis
  proof (cases "secrets_of points combos = []")
    case True
    then have "cFreq ?t = []" by (simp add: fr)
    with assms True show ?thesis by (simp add: main_def Let_def)
  next
    case False
    then have ne: "cFreq ?t \<noteq> []" unfolding fr by (rule tally_nonempty)
    from pick_best_Some[OF ne] obtain w bc where w: "pick_best (cFreq ?t) None (- 1) = (Some w, bc)"
      by blast
    with assms False ne show ?thesis
      by (simp add: main_def Let_def okSet_of_def fr[symmetric])
  qed
qed

text \<open>
  C4. When at least \<open>k\<close> points take part (with valid \<open>n\<close> and \<open>k\<close>), the generator returns
  and the run ends. If no subset interpolates it ends with the no-valid-subset error.
  Otherwise \<open>main\<close> produces a secret: it occurs among the values of the successfully
  interpolated subsets, taken in enumeration order; no value occurs more often; and every
  value recorded before the secret's first occurrence occurs strictly less often. So the
  winner has the greatest count, and among values with that count it is the one recorded
  first.
\<close>

theorem winner_greatest_count_first_seen:
  assumes "2 \<le> k" and "k \<le> n" and "k \<le> int (length points)"
  shows "\<exists>combos.
           combinations (min (int (length points)) n) (nat k) = Some combos
           \<and> (if secrets_of points combos = [] then main n k points = Some (Inl NoValidSubset)
              else \<exists>r pre post.
                     main n k points = Some (Inr r)
                     \<and> secrets_of points combos = pre @ secret r # post
                     \<and> (\<forall>u\<in>set pre. count_list (secrets_of points combos) u
                                         < count_list (secrets_of points combos) (secret r))
                     \<and> (\<forall>u\<in>set post. count_list (secrets_of points combos) u
                                         \<le> count_list (secrets_of points combos) (secret r)))"
proof -
  let ?m = "min (int (length points)) n"
  from assms have m: "?m = int (nat ?m)" and km: "nat k \<le> nat ?m" by simp_all
  from combinations_enumerates[OF km] obtain combos
    where c: "combinations ?m (nat k) = Some combos"
    unfolding m[symmetric] by (elim exE conjE)
  let ?vs = "secrets_of points combos"
  show ?thesis
  proof (cases "?vs = []")
    case True
    with main_on_domain[OF assms(1,2) c] have "main n k points = Some (Inl NoValidSubset)"
      by simp
    with True c show ?thesis by (intro exI[of _ combos]) simp
  next
    case False
    then have "foldl bump [] ?vs \<noteq> []" by (rule tally_nonempty)
    from pick_best_Some[OF this] obtain w bc
      where pb: "pick_best (foldl bump [] ?vs) None (- 1) = (Some w, bc)"
      by blast
    let ?r = "\<lparr>secret = w, outliers = map (\<lambda>i. points ! i)
               (filter (\<lambda>i. i \<notin> okSet_of (foldl (tally_step points) empty_tally combos) w)
                 [0..<nat ?m])\<rparr>"
    from main_on_domain[OF assms(1,2) c] False pb have r: "main n k points = Some (Inr ?r)"
      by simp
    from winner_first_seen[OF pb] obtain pre post
      where w: "?vs = pre @ w # post"
        "\<forall>u\<in>set pre. count_list ?vs u < count_list ?vs w"
        "\<forall>u\<in>set post. count_list ?vs u \<le> count_list ?vs w"
      by blast
    have s: "secret ?r = w" by simp
    have "main n k points = Some (Inr ?r) \<and> ?vs = pre @ secret ?r # post
        \<and> (\<forall>u\<in>set pre. count_list ?vs u < count_list ?vs (secret ?r))
        \<and> (\<forall>u\<in>set post. count_list ?vs u \<le> count_list ?vs (secret ?r))"
      unfolding s using r w by (intro conjI)
    then have "\<exists>r pre post. main n k points = Some (Inr r) \<and> ?vs = pre @ secret r # post
        \<and> (\<forall>u\<in>set pre. count_list ?vs u < count_list ?vs (secret r))
        \<and> (\<forall>u\<in>set post. count_list ?vs u \<le> count_list ?vs (secret r))"
      by blast
    with False c show ?thesis by (intro exI[of _ combos]) simp
  qed
qed

theorem winner_greatest_count_first_seen_witness:
  "main 4 3 [\<lparr>x = 1, y = 4, label = ''1''\<rparr>, \<lparr>x = 2, y = 7, label = ''2''\<rparr>,
             \<lparr>x = 3, y = 12, label = ''3''\<rparr>, \<lparr>x = 4, y = 99, label = ''4''\<rparr>]
     = Some (Inr \<lparr>secret = 3, outliers = [\<lparr>x = 4, y = 99, label = ''4''\<rparr>]\<rparr>)
   \<and> (\<exists>combos pre post. combinations 4 3 = Some combos
        \<and> secrets_of [\<lparr>x = 1, y = 4, label = ''1''\<rparr>, \<lparr>x = 2, y = 7, label = ''2''\<rparr>,
             \<lparr>x = 3, y = 12, label = ''3''\<rparr>, \<lparr>x = 4, y = 99, label = ''4''\<rparr>] combos = pre @ 3 # post)"
proof -
  let ?points = "[\<lparr>x = 1, y = 4, label = ''1''\<rparr>, \<lparr>x = 2, y = 7, label = ''2''\<rparr>,
             \<lparr>x = 3, y = 12, label = ''3''\<rparr>, \<lparr>x = 4, y = 99, label = ''4''\<rparr>]"
  have ev: "main 4 3 ?points = Some (Inr \<lparr>secret = 3, outliers = [\<lparr>x = 4, y = 99, label = ''4''\<rparr>]\<rparr>)"
    by code_simp
  from winner_greatest_count_first_seen[of 3 4 ?points] obtain combos
    where c: "combinations 4 3 = Some combos"
      and w: "if secrets_of ?points combos = [] then main 4 3 ?points = Some (Inl NoValidSubset)
              else \<exists>r pre post. main 4 3 ?points = Some (Inr r)
                     \<and> secrets_of ?points combos = pre @ secret r # post
                     \<and> (\<forall>u\<in>set pre. count_list (secrets_of ?points combos) u
                                         < count_list (secrets_of ?points combos) (secret r))
                     \<and> (\<forall>u\<in>set post. count_list (secrets_of ?points combos) u
                                         \<le> count_list (secrets_of ?points combos) (secret r))"
    by auto
  from w ev obtain r pre post where "main 4 3 ?points = Some (Inr r)"
      and "secrets_of ?points combos = pre @ secret r # post"
    by (auto split: if_splits)
  with ev c have "\<exists>combos pre post. combinations 4 3 = Some combos \<and> secrets_of ?points combos = pre @ 3 # post"
    by auto
  with ev show ?thesis by (intro conjI)
qed

section \<open>One perturbed point among many\<close>

lemma increasing_within_set_inj: "inj_on set {c. increasing_within m k c}"
proof (rule inj_onI)
  fix c d :: "nat list"
  assume "c \<in> {c. increasing_within m k c}" and "d \<in> {c. increasing_within m k c}"
    and e: "set c = set d"
  then have "sorted c \<and> distinct c" and "sorted d \<and> distinct d"
    by (simp_all add: increasing_within_def strict_sorted_iff)
  with e show "c = d" by (intro sorted_distinct_set_unique) simp_all
qed

lemma increasing_within_set:
  assumes "increasing_within m k c"
  shows "set c \<subseteq> {0..<m}" and "card (set c) = k" and "finite (set c)"
proof -
  from assms have "distinct c" and "length c = k" and "\<forall>i\<in>set c. i < m"
    by (simp_all add: increasing_within_def strict_sorted_iff)
  then show "set c \<subseteq> {0..<m}" and "card (set c) = k" and "finite (set c)"
    by (auto simp: distinct_card)
qed

lemma increasing_within_of_set:
  assumes "T \<subseteq> {0..<m}" and "card T = k"
  shows "increasing_within m k (sorted_list_of_set T) \<and> set (sorted_list_of_set T) = T"
proof -
  from assms(1) have fin: "finite T" by (rule finite_subset) simp
  then have "set (sorted_list_of_set T) = T" by simp
  moreover have "sorted_wrt (<) (sorted_list_of_set T)" by simp
  moreover have "length (sorted_list_of_set T) = k" using assms(2) by simp
  ultimately show ?thesis using assms(1) by (auto simp: increasing_within_def)
qed

lemma subsets_as_sequences:
  "set ` {c. increasing_within m k c \<and> Q (set c)} = {T. T \<subseteq> {0..<m} \<and> card T = k \<and> Q T}"
proof (intro set_eqI iffI)
  fix T assume "T \<in> set ` {c. increasing_within m k c \<and> Q (set c)}"
  then obtain c where "increasing_within m k c" "Q (set c)" "T = set c" by blast
  with increasing_within_set[of m k c] show "T \<in> {T. T \<subseteq> {0..<m} \<and> card T = k \<and> Q T}"
    by simp
next
  fix T assume "T \<in> {T. T \<subseteq> {0..<m} \<and> card T = k \<and> Q T}"
  then have T: "T \<subseteq> {0..<m}" "card T = k" "Q T" by simp_all
  from increasing_within_of_set[OF T(1,2)] T(3)
  have "sorted_list_of_set T \<in> {c. increasing_within m k c \<and> Q (set c)}" by simp
  moreover have "set (sorted_list_of_set T) = T"
    using increasing_within_of_set[OF T(1,2)] by simp
  ultimately show "T \<in> set ` {c. increasing_within m k c \<and> Q (set c)}" by (metis imageI)
qed

lemma card_sequences:
  "card {c. increasing_within m k c \<and> Q (set c)} = card {T. T \<subseteq> {0..<m} \<and> card T = k \<and> Q T}"
proof -
  have "inj_on set {c. increasing_within m k c \<and> Q (set c)}"
    by (rule inj_on_subset[OF increasing_within_set_inj[of m k]]) auto
  from card_image[OF this] show ?thesis by (simp only: subsets_as_sequences)
qed

lemma combinations_length:
  assumes "k \<le> m" and "combinations (int m) k = Some combos"
  shows "length combos = m choose k"
proof -
  from combinations_enumerates[OF assms(1)] assms(2)
  have s: "sorted_wrt (<) combos" and v: "set combos = {c. increasing_within m k c}" by simp_all
  from s have "distinct combos" by (simp add: strict_sorted_iff)
  then have "length combos = card {c. increasing_within m k c \<and> True}"
    by (simp add: distinct_card[symmetric] v)
  also have "\<dots> = card {T. T \<subseteq> {0..<m} \<and> card T = k \<and> True}" by (rule card_sequences)
  also have "\<dots> = card {0..<m} choose k" using n_subsets[of "{0..<m}" k] by simp
  finally show ?thesis by simp
qed

lemma filter_only: "b < m \<Longrightarrow> filter (\<lambda>i. i \<notin> {0..<m} - {b}) [0..<m] = [b]"
proof -
  assume b: "b < m"
  have split: "[0..<m] = [0..<b] @ b # [Suc b..<m]"
  proof -
    have "[0..<b + (m - b)] = [0..<b] @ [b..<b + (m - b)]" by (rule upt_add_eq_append) simp
    moreover have "[b..<m] = b # [Suc b..<m]" using b by (rule upt_conv_Cons)
    ultimately show ?thesis using b by simp
  qed
  have "filter (\<lambda>i. i \<notin> {0..<m} - {b}) [0..<m] = filter (\<lambda>i. i = b) [0..<m]"
    by (rule filter_cong) auto
  also have "\<dots> = filter (\<lambda>i. i = b) ([0..<b] @ b # [Suc b..<m])"
    by (subst split) (rule refl)
  also have "\<dots> = [b]"
    by (simp add: filter_empty_conv)
  finally show ?thesis .
qed

lemma poly_at_real:
  assumes "length cs = K" and "1 \<le> K"
  shows "real_of_int (poly_at cs t) = (\<Sum>d\<le>K - 1. real_of_int (cs ! d) * real_of_int t ^ d)"
proof -
  have "{..<K} = {..K - 1}" using assms(2) by auto
  then show ?thesis by (simp add: poly_at_def assms(1))
qed

lemma union_of_subsets:
  fixes G :: "nat set"
  assumes "finite G" and "K \<le> card G" and "1 \<le> K"
  shows "\<Union> {T. T \<subseteq> G \<and> card T = K} = G"
proof (intro set_eqI iffI)
  fix a assume "a \<in> \<Union> {T. T \<subseteq> G \<and> card T = K}"
  then show "a \<in> G" by auto
next
  fix a assume a: "a \<in> G"
  then have "card (G - {a}) = card G - 1" using assms(1) by simp
  with assms(2) have "K - 1 \<le> card (G - {a})" by simp
  from obtain_subset_with_card_n[OF this] obtain T'
    where T': "T' \<subseteq> G - {a}" "card T' = K - 1" "finite T'" by blast
  then have "a \<notin> T'" by auto
  with T' assms(3) have "card (insert a T') = K" by simp
  moreover have "insert a T' \<subseteq> G" using a T'(1) by auto
  ultimately have "insert a T' \<in> {T. T \<subseteq> G \<and> card T = K}" by simp
  then show "a \<in> \<Union> {T. T \<subseteq> G \<and> card T = K}" by blast
qed


text \<open>The subsets of a run with one point off the polynomial: those without the bad point
  give the constant term, those with it give something else, and two of the latter that
  differ in one point give different values.\<close>

lemma one_bad_outcomes:
  assumes K: "1 \<le> K" and dx: "distinct (map x points)" and nz: "\<forall>p\<in>set points. x p \<noteq> 0"
    and cs: "length cs = K" and b: "b < length points"
    and good: "\<forall>i<length points. i \<noteq> b \<longrightarrow> y (points ! i) = poly_at cs (x (points ! i))"
    and bad: "y (points ! b) \<noteq> poly_at cs (x (points ! b))"
  shows "\<And>c. increasing_within (length points) K c \<Longrightarrow> b \<notin> set c \<Longrightarrow>
            outcome points c = Some (cs ! 0)"
    and "\<And>c. increasing_within (length points) K c \<Longrightarrow> b \<in> set c \<Longrightarrow>
            outcome points c \<noteq> Some (cs ! 0)"
    and "\<And>c c' v a a' C. increasing_within (length points) K c \<Longrightarrow>
            increasing_within (length points) K c' \<Longrightarrow>
            outcome points c = Some v \<Longrightarrow> outcome points c' = Some v \<Longrightarrow>
            set c = insert a C \<Longrightarrow> set c' = insert a' C \<Longrightarrow> a \<notin> C \<Longrightarrow> a' \<notin> C \<Longrightarrow> a \<noteq> a' \<Longrightarrow>
            b \<in> C \<Longrightarrow> finite C \<Longrightarrow> False"
proof -
  let ?m = "length points"
  let ?X = "X_of points" and ?Y = "Y_of points"
  let ?c = "\<lambda>d. real_of_int (cs ! d)"
  have injU: "inj_on ?X {0..<?m}" by (rule X_of_inj[OF dx])
  have nzX: "?X a \<noteq> 0" if "a < ?m" for a
  proof -
    from that have "points ! a \<in> set points" by simp
    with nz show ?thesis by (simp add: X_of_def)
  qed
  have Ygood: "?Y a = (\<Sum>d\<le>K - 1. ?c d * ?X a ^ d)" if "a < ?m" "a \<noteq> b" for a
    using that good by (simp add: Y_of_def X_of_def poly_at_real[OF cs K])
  have Ybad: "?Y b \<noteq> (\<Sum>d\<le>K - 1. ?c d * ?X b ^ d)"
  proof -
    have "(\<Sum>d\<le>K - 1. ?c d * ?X b ^ d) = real_of_int (poly_at cs (x (points ! b)))"
      by (simp add: X_of_def poly_at_real[OF cs K])
    with bad show ?thesis by (simp add: Y_of_def)
  qed
  {
    fix c assume v: "increasing_within ?m K c" and nb: "b \<notin> set c"
    from increasing_within_set[OF v] have sub: "set c \<subseteq> {0..<?m}" and card: "card (set c) = K"
      by simp_all
    have inj: "inj_on ?X (set c)" by (rule inj_on_subset[OF injU sub])
    have deg: "K - 1 < card (set c)" using card K by simp
    have g: "\<forall>a\<in>set c. ?Y a = (\<Sum>d\<le>K - 1. ?c d * ?X a ^ d)"
    proof
      fix a assume "a \<in> set c"
      with sub nb have "a < ?m" and "a \<noteq> b" by auto
      then show "?Y a = (\<Sum>d\<le>K - 1. ?c d * ?X a ^ d)" by (rule Ygood)
    qed
    have "lagrange_at0 (set c) ?X ?Y = ?c 0"
      by (rule lagrange_at0_good[OF _ inj deg g]) simp
    then show "outcome points c = Some (cs ! 0)"
      by (simp only: outcome_char[OF dx v])
  next
    fix c assume v: "increasing_within ?m K c" and ib: "b \<in> set c"
    from increasing_within_set[OF v] have sub: "set c \<subseteq> {0..<?m}" and card: "card (set c) = K"
      by simp_all
    have inj: "inj_on ?X (set c)" by (rule inj_on_subset[OF injU sub])
    have deg: "K - 1 < card (set c)" using card K by simp
    have g: "\<forall>a\<in>set c - {b}. ?Y a = (\<Sum>d\<le>K - 1. ?c d * ?X a ^ d)"
    proof
      fix a assume "a \<in> set c - {b}"
      with sub have "a < ?m" and "a \<noteq> b" by auto
      then show "?Y a = (\<Sum>d\<le>K - 1. ?c d * ?X a ^ d)" by (rule Ygood)
    qed
    have val: "lagrange_at0 (set c) ?X ?Y
        = ?c 0 + (?Y b - (\<Sum>d\<le>K - 1. ?c d * ?X b ^ d)) * basis_at0 (set c) ?X b"
      by (rule lagrange_at0_one_bad[OF _ inj deg ib g]) simp
    have "\<forall>a\<in>set c - {b}. ?X a \<noteq> 0"
    proof
      fix a assume "a \<in> set c - {b}"
      with sub have "a < ?m" by auto
      then show "?X a \<noteq> 0" by (rule nzX)
    qed
    then have "basis_at0 (set c) ?X b \<noteq> 0"
      by (intro basis_at0_nonzero[OF _ inj ib]) simp_all
    with Ybad have "lagrange_at0 (set c) ?X ?Y \<noteq> ?c 0" unfolding val by simp
    then show "outcome points c \<noteq> Some (cs ! 0)"
      by (simp only: outcome_char[OF dx v] not_False_eq_True)
  next
    fix c c' v a a' C
    assume v: "increasing_within ?m K c" and v': "increasing_within ?m K c'"
      and o: "outcome points c = Some v" and o': "outcome points c' = Some v"
      and s: "set c = insert a C" and s': "set c' = insert a' C"
      and a: "a \<notin> C" "a' \<notin> C" "a \<noteq> a'" and bC: "b \<in> C" and fin: "finite C"
    from increasing_within_set[OF v] increasing_within_set[OF v'] s s'
    have sub: "insert a (insert a' C) \<subseteq> {0..<?m}" and card: "card (insert a C) = K"
      by auto
    have inj: "inj_on ?X (insert a (insert a' C))" by (rule inj_on_subset[OF injU sub])
    have nz': "\<forall>i\<in>insert a (insert a' C). ?X i \<noteq> 0"
    proof
      fix i assume "i \<in> insert a (insert a' C)"
      with sub have "i < ?m" by auto
      then show "?X i \<noteq> 0" by (rule nzX)
    qed
    have deg: "K - 1 < card (insert a C)" using card K by simp
    have g: "\<forall>i\<in>insert a (insert a' C) - {b}. ?Y i = (\<Sum>d\<le>K - 1. ?c d * ?X i ^ d)"
    proof
      fix i assume "i \<in> insert a (insert a' C) - {b}"
      with sub have "i < ?m" and "i \<noteq> b" by auto
      then show "?Y i = (\<Sum>d\<le>K - 1. ?c d * ?X i ^ d)" by (rule Ygood)
    qed
    have "lagrange_at0 (set c) ?X ?Y \<noteq> lagrange_at0 (set c') ?X ?Y"
      unfolding s s' by (rule one_bad_differ[OF fin bC a inj nz' deg g Ybad])
    moreover from o have "lagrange_at0 (set c) ?X ?Y = real_of_int v"
      by (simp only: outcome_char[OF dx v])
    moreover from o' have "lagrange_at0 (set c') ?X ?Y = real_of_int v"
      by (simp only: outcome_char[OF dx v'])
    ultimately show False by simp
  }
qed

lemma one_bad_counts:
  assumes K: "1 \<le> K" and Km: "K + 2 \<le> length points"
    and dx: "distinct (map x points)" and nz: "\<forall>p\<in>set points. x p \<noteq> 0"
    and cs: "length cs = K" and b: "b < length points"
    and good: "\<forall>i<length points. i \<noteq> b \<longrightarrow> y (points ! i) = poly_at cs (x (points ! i))"
    and bad: "y (points ! b) \<noteq> poly_at cs (x (points ! b))"
    and srt: "sorted_wrt (<) combos" and setc: "set combos = {c. increasing_within (length points) K c}"
  shows "count_list (secrets_of points combos) (cs ! 0) > 0"
    and "\<And>v. v \<noteq> cs ! 0 \<Longrightarrow>
           count_list (secrets_of points combos) v < count_list (secrets_of points combos) (cs ! 0)"
    and "\<Union> (set ` {c \<in> set combos. outcome points c = Some (cs ! 0)}) = {0..<length points} - {b}"
proof -
  let ?m = "length points"
  let ?V = "{c. increasing_within ?m K c}"
  let ?vs = "secrets_of points combos"
  let ?GS = "{T. T \<subseteq> {0..<?m} - {b} \<and> card T = K}"
  note oc = one_bad_outcomes[OF K dx nz cs b good bad]
  from srt have dcomb: "distinct combos" by (simp add: strict_sorted_iff)
  have cnt: "count_list ?vs v = card {c \<in> ?V. outcome points c = Some v}" for v
  proof -
    have "count_list ?vs v = length (filter (\<lambda>c. outcome points c = Some v) combos)"
      by (rule count_secrets)
    also have "\<dots> = card (set (filter (\<lambda>c. outcome points c = Some v) combos))"
      by (rule distinct_card[symmetric]) (simp add: dcomb)
    also have "set (filter (\<lambda>c. outcome points c = Some v) combos)
        = {c \<in> ?V. outcome points c = Some v}"
      by (auto simp: setc)
    finally show ?thesis .
  qed
  have goods: "{c \<in> ?V. outcome points c = Some (cs ! 0)} = {c. increasing_within ?m K c \<and> b \<notin> set c}"
    using oc(1,2) by blast
  have GS: "{T. T \<subseteq> {0..<?m} \<and> card T = K \<and> b \<notin> T} = ?GS" by auto
  have cardS: "card {c \<in> ?V. outcome points c = Some (cs ! 0)} = card ?GS"
    by (simp only: goods card_sequences[of ?m K "\<lambda>T. b \<notin> T"] GS)
  have cnt_s: "count_list ?vs (cs ! 0) = card ?GS"
    by (simp only: cnt cardS)
  have finG: "finite ({0..<?m} - {b})" by simp
  have cG: "card ({0..<?m} - {b}) = ?m - 1" using b by simp
  have "card ?GS = (?m - 1) choose K" using n_subsets[OF finG, of K] by (simp only: cG)
  then have posGS: "card ?GS > 0" using Km by (simp add: zero_less_binomial_iff)
  then show "count_list ?vs (cs ! 0) > 0" by (simp only: cnt_s)
  show "count_list ?vs v < count_list ?vs (cs ! 0)" if ne: "v \<noteq> cs ! 0" for v
  proof -
    let ?F = "{c \<in> ?V. outcome points c = Some v}"
    have inb: "b \<in> set c" if "c \<in> ?F" for c
    proof (rule ccontr)
      assume "b \<notin> set c"
      with that oc(1)[of c] have "outcome points c = Some (cs ! 0)" by simp
      with that ne show False by simp
    qed
    have sub: "set ` ?F \<subseteq> {A. A \<subseteq> {0..<?m} \<and> card A = K \<and> b \<in> A}"
      using inb increasing_within_set(1,2)[of ?m K] by auto
    have sep: False
      if "A \<in> set ` ?F" "A' \<in> set ` ?F" "a \<notin> C" "a' \<notin> C" "a \<noteq> a'" "b \<in> C" "finite C"
        "A = insert a C" "A' = insert a' C" for A A' C a a'
    proof -
      from that(1,2) obtain c c' where c: "c \<in> ?F" "A = set c" and c': "c' \<in> ?F" "A' = set c'"
        by blast
      from c(1) c'(1) have "increasing_within ?m K c" "increasing_within ?m K c'"
        "outcome points c = Some v" "outcome points c' = Some v" by simp_all
      moreover from that(8,9) c(2) c'(2) have "set c = insert a C" "set c' = insert a' C"
        by simp_all
      ultimately show False using that(3-7) by (rule oc(3))
    qed
    have "card (set ` ?F) < card ?GS"
    proof (rule separated_family_smaller[of "{0..<?m}" b K "set ` ?F"])
      show "finite {0..<?m}" by simp
      show "b \<in> {0..<?m}" using b by simp
      show "K + 2 \<le> card {0..<?m}" using Km by simp
      show "set ` ?F \<subseteq> {A. A \<subseteq> {0..<?m} \<and> card A = K \<and> b \<in> A}" by (rule sub)
    next
      fix A A' C a a'
      assume "A \<in> set ` ?F" "A' \<in> set ` ?F" "a \<notin> C" "a' \<notin> C" "a \<noteq> a'" "b \<in> C" "finite C"
        "A = insert a C" "A' = insert a' C"
      then show False by (rule sep)
    qed
    moreover have "card (set ` ?F) = card ?F"
      by (rule card_image[OF inj_on_subset[OF increasing_within_set_inj[of ?m K]]]) auto
    ultimately show ?thesis unfolding cnt cardS by simp
  qed
  have "\<Union> (set ` {c \<in> set combos. outcome points c = Some (cs ! 0)})
      = \<Union> (set ` {c. increasing_within ?m K c \<and> b \<notin> set c})"
    using goods by (simp add: setc)
  also have "\<dots> = \<Union> ?GS"
    by (simp only: subsets_as_sequences[of ?m K "\<lambda>T. b \<notin> T"] GS)
  also have "\<dots> = {0..<?m} - {b}"
    using finG by (rule union_of_subsets) (use cG Km K in simp_all)
  finally show "\<Union> (set ` {c \<in> set combos. outcome points c = Some (cs ! 0)}) = {0..<?m} - {b}" .
qed

text \<open>
  C2, as amended. Let \<open>k \<ge> 2\<close>, let there be at least \<open>k + 2\<close> points (and \<open>n\<close> not smaller
  than their number, so that all of them take part), with pairwise distinct and non-zero
  \<open>x\<close>; let all points but the one at index \<open>b\<close> lie on the polynomial with the \<open>k\<close>
  integer coefficients \<open>cs\<close>, and the point at \<open>b\<close> not. Then \<open>main\<close> returns the
  polynomial's value at 0 as the secret, and the outlier list is exactly the point at \<open>b\<close>.
\<close>

theorem robust_reconstruction_one_bad_point:
  assumes k: "2 \<le> k" and enough: "k + 2 \<le> int (length points)" and n: "int (length points) \<le> n"
    and dx: "distinct (map x points)" and nz: "\<forall>p\<in>set points. x p \<noteq> 0"
    and cs: "length cs = nat k" and b: "b < length points"
    and good: "\<forall>i<length points. i \<noteq> b \<longrightarrow> y (points ! i) = poly_at cs (x (points ! i))"
    and bad: "y (points ! b) \<noteq> poly_at cs (x (points ! b))"
  shows "main n k points = Some (Inr \<lparr>secret = poly_at cs 0, outliers = [points ! b]\<rparr>)"
proof -
  let ?m = "length points"
  let ?K = "nat k"
  from k enough have K: "1 \<le> ?K" and Km: "?K + 2 \<le> ?m" and Kle: "?K \<le> ?m" by simp_all
  from enough n have mn: "min (int ?m) n = int ?m" and kn: "k \<le> n" by simp_all
  from combinations_enumerates[OF Kle] obtain combos
    where combos: "combinations (int ?m) ?K = Some combos" and srt: "sorted_wrt (<) combos"
      and setc: "set combos = {c. increasing_within ?m ?K c}"
    by (elim exE conjE)
  let ?vs = "secrets_of points combos"
  let ?s = "cs ! 0"
  note counts = one_bad_counts[OF K Km dx nz cs b good bad srt setc]
  have s_in: "?s \<in> set ?vs"
  proof (rule ccontr)
    assume "?s \<notin> set ?vs"
    then have "count_list ?vs ?s = 0" by (rule count_notin)
    with counts(1) show False by simp
  qed
  then have ne: "?vs \<noteq> []" by auto
  let ?w = "the (fst (pick_best (foldl bump [] ?vs) None (- 1)))"
  let ?t = "foldl (tally_step points) empty_tally combos"
  have run: "main n k points = Some (Inr \<lparr>secret = ?w, outliers = map (\<lambda>i. points ! i)
       (filter (\<lambda>i. i \<notin> okSet_of ?t ?w) [0..<nat (min (int ?m) n)])\<rparr>)"
    using main_on_domain[OF k kn, of points combos] combos ne by (simp add: mn)
  from pick_best_Some[OF tally_nonempty[OF ne]] obtain w bc
    where pb: "pick_best (foldl bump [] ?vs) None (- 1) = (Some w, bc)" by blast
  then have w: "?w = w" by simp
  from winner_first_seen[OF pb] obtain pre post
    where split: "?vs = pre @ w # post"
      and before: "\<forall>u\<in>set pre. count_list ?vs u < count_list ?vs w"
      and after: "\<forall>u\<in>set post. count_list ?vs u \<le> count_list ?vs w"
    by (elim exE conjE)
  have "?s \<in> set pre \<or> ?s = w \<or> ?s \<in> set post"
    using s_in unfolding split by auto
  with before after have "count_list ?vs ?s \<le> count_list ?vs w" by auto
  with counts(2)[of w] have ws: "w = ?s" by (cases "w = ?s") simp_all
  have "okSet_of ?t ?s = {0..<?m} - {b}"
    by (simp add: okSet_foldl counts(3)) (simp add: okSet_of_def empty_tally_def)
  then have out: "map (\<lambda>i. points ! i) (filter (\<lambda>i. i \<notin> okSet_of ?t ?s) [0..<?m]) = [points ! b]"
    by (simp only: filter_only[OF b] list.map)
  have "cs \<noteq> []" using cs K by auto
  then have "poly_at cs 0 = ?s" by (rule poly_at_zero)
  with run out show ?thesis by (simp add: w ws mn)
qed


theorem robust_reconstruction_one_bad_point_witness:
  "main 4 2 [\<lparr>x = 1, y = 6, label = ''1''\<rparr>, \<lparr>x = 2, y = 7, label = ''2''\<rparr>,
             \<lparr>x = 3, y = 8, label = ''3''\<rparr>, \<lparr>x = 4, y = 99, label = ''4''\<rparr>]
     = Some (Inr \<lparr>secret = 5, outliers = [\<lparr>x = 4, y = 99, label = ''4''\<rparr>]\<rparr>)"
proof -
  let ?points = "[\<lparr>x = 1, y = 6, label = ''1''\<rparr>, \<lparr>x = 2, y = 7, label = ''2''\<rparr>,
             \<lparr>x = 3, y = 8, label = ''3''\<rparr>, \<lparr>x = 4, y = 99, label = ''4''\<rparr>]"
  have p: "poly_at [5, 1] t = 5 + t" for t
    by (simp add: poly_at_def lessThan_Suc eval_nat_numeral)
  have good: "\<forall>i<length ?points. i \<noteq> 3 \<longrightarrow> y (?points ! i) = poly_at [5, 1] (x (?points ! i))"
    by (simp add: p less_Suc_eq eval_nat_numeral)
  have bad: "y (?points ! 3) \<noteq> poly_at [5, 1] (x (?points ! 3))"
    by (simp add: p)
  from robust_reconstruction_one_bad_point[of 2 ?points 4 "[5, 1]" 3, OF _ _ _ _ _ _ _ good bad]
  show ?thesis by (simp add: p)
qed

text \<open>
  C2 as it is stated fails. With \<open>k = 2\<close> and the three points \<open>(1, 99)\<close>, \<open>(2, 7)\<close>,
  \<open>(3, 8)\<close>, of which the last two lie on \<open>5 + x\<close> and the first does not (\<open>m = k + 1\<close>),
  the secret is 191 and the outlier is \<open>(3, 8)\<close>: the subset of the two good points gives 5
  once, the first subset gives 191 once, and the first recorded value wins the tie. With
  the four points \<open>(0, 5)\<close>, \<open>(1, 6)\<close>, \<open>(2, 7)\<close>, \<open>(3, 100)\<close> the secret is 5, yet no
  outlier is reported: the subset of \<open>(0, 5)\<close> and the bad point also gives 5.
\<close>

theorem robust_reconstruction_counterexample:
  "main 3 2 [\<lparr>x = 1, y = 99, label = ''1''\<rparr>, \<lparr>x = 2, y = 7, label = ''2''\<rparr>,
             \<lparr>x = 3, y = 8, label = ''3''\<rparr>]
     = Some (Inr \<lparr>secret = 191, outliers = [\<lparr>x = 3, y = 8, label = ''3''\<rparr>]\<rparr>)
   \<and> main 4 2 [\<lparr>x = 0, y = 5, label = ''0''\<rparr>, \<lparr>x = 1, y = 6, label = ''1''\<rparr>,
             \<lparr>x = 2, y = 7, label = ''2''\<rparr>, \<lparr>x = 3, y = 100, label = ''3''\<rparr>]
     = Some (Inr \<lparr>secret = 5, outliers = []\<rparr>)
   \<and> poly_at [5, 1] 0 = 5 \<and> poly_at [5, 1] 1 = 6 \<and> poly_at [5, 1] 2 = 7 \<and> poly_at [5, 1] 3 = 8"
proof -
  have a: "main 3 2 [\<lparr>x = 1, y = 99, label = ''1''\<rparr>, \<lparr>x = 2, y = 7, label = ''2''\<rparr>,
             \<lparr>x = 3, y = 8, label = ''3''\<rparr>]
     = Some (Inr \<lparr>secret = 191, outliers = [\<lparr>x = 3, y = 8, label = ''3''\<rparr>]\<rparr>)"
    by code_simp
  have b: "main 4 2 [\<lparr>x = 0, y = 5, label = ''0''\<rparr>, \<lparr>x = 1, y = 6, label = ''1''\<rparr>,
             \<lparr>x = 2, y = 7, label = ''2''\<rparr>, \<lparr>x = 3, y = 100, label = ''3''\<rparr>]
     = Some (Inr \<lparr>secret = 5, outliers = []\<rparr>)"
    by code_simp
  have p: "poly_at [5, 1] t = 5 + t" for t
    by (simp add: poly_at_def lessThan_Suc eval_nat_numeral)
  from a b show ?thesis by (simp add: p)
qed

section \<open>The enumerator and the run when enough points were decoded\<close>

text \<open>For \<open>k \<le> m\<close> the generator returns, after exactly \<open>C(m, k)\<close> sequences: all strictly
  increasing sequences of \<open>k\<close> indices below \<open>m\<close>, each once, in lexicographic order.\<close>

lemma combinations_on_domain:
  assumes "k \<le> m"
  shows "\<exists>combos. combinations (int m) k = Some combos \<and> length combos = m choose k
           \<and> sorted_wrt (<) combos \<and> set combos = {c. increasing_within m k c}"
proof -
  from combinations_enumerates[OF assms] obtain combos
    where c: "combinations (int m) k = Some combos" "sorted_wrt (<) combos"
      "set combos = {c. increasing_within m k c}"
    by (elim exE conjE)
  from combinations_length[OF assms c(1)] c show ?thesis
    by (intro exI[of _ combos] conjI)
qed

text \<open>When at least \<open>k\<close> points take part, the run ends: with the no-valid-subset error
  exactly when every subset fails to interpolate, and with a secret otherwise.\<close>

lemma main_no_valid_subset_iff:
  assumes "2 \<le> k" and "k \<le> n" and "k \<le> int (length points)"
  shows "\<exists>combos. combinations (min (int (length points)) n) (nat k) = Some combos
           \<and> (main n k points = Some (Inl NoValidSubset)
                \<longleftrightarrow> (\<forall>c\<in>set combos. failed (interpolateAtZero (subset_of points c))))
           \<and> (main n k points = Some (Inl NoValidSubset) \<or> (\<exists>r. main n k points = Some (Inr r)))"
proof -
  let ?m = "min (int (length points)) n"
  from assms have m: "?m = int (nat ?m)" and km: "nat k \<le> nat ?m" by simp_all
  from combinations_enumerates[OF km] obtain combos
    where c: "combinations ?m (nat k) = Some combos"
    unfolding m[symmetric] by (elim exE conjE)
  have "secrets_of points combos = [] \<longleftrightarrow> set (secrets_of points combos) = {}"
    by simp
  also have "\<dots> \<longleftrightarrow> (\<forall>c\<in>set combos. outcome points c = None)"
  proof
    assume e: "set (secrets_of points combos) = {}"
    show "\<forall>c\<in>set combos. outcome points c = None"
    proof
      fix c assume c: "c \<in> set combos"
      show "outcome points c = None"
      proof (cases "outcome points c")
        case None
        then show ?thesis .
      next
        case (Some v)
        with c have "v \<in> set (secrets_of points combos)" unfolding secrets_set by blast
        with e show ?thesis by simp
      qed
    qed
  next
    assume "\<forall>c\<in>set combos. outcome points c = None"
    then show "set (secrets_of points combos) = {}" unfolding secrets_set by simp
  qed
  also have "\<dots> \<longleftrightarrow> (\<forall>c\<in>set combos. failed (interpolateAtZero (subset_of points c)))"
    by (simp add: outcome_def failed_def split: sum.splits)
  finally have e: "secrets_of points combos = []
      \<longleftrightarrow> (\<forall>c\<in>set combos. failed (interpolateAtZero (subset_of points c)))" .
  show ?thesis
  proof (cases "secrets_of points combos = []")
    case True
    with main_on_domain[OF assms(1,2) c] have "main n k points = Some (Inl NoValidSubset)"
      by simp
    with True e c show ?thesis by (intro exI[of _ combos]) simp
  next
    case False
    with main_on_domain[OF assms(1,2) c] have "\<exists>r. main n k points = Some (Inr r)"
      by simp
    with False e c show ?thesis by (intro exI[of _ combos]) auto
  qed
qed

end
